theory Spec2Isabelle
  imports Complex_Main
begin

section \<open>The retry helper (src/utils/index.ts)\<close>

text \<open>
  \<^verbatim>\<open>
  export async function retry<T>(fn: () => Promise<T>, retries: number = 3,
                                 delay: number = 1000): Promise<T> {
    for (let i = 0; i < retries; i++) {
      try {
        return await fn();
      } catch (error) {
        if (i === retries - 1) throw new Error(`[ERROR]: ${error}`);
        await new Promise((resolve) => setTimeout(resolve, delay));
      }
    }
    throw new Error("Falha inesperada no retry");
  }
  \<close>

  The operation \<open>fn\<close> is a closure over state of its own, so it is a transformer of a
  world \<open>'w\<close> that settles with a rejection reason (\<open>Inl\<close>) or a value (\<open>Inr\<close>); every
  attempt is taken to settle. A JavaScript \<open>Error\<close> is its message. The conversion of
  the caught value by the template literal (\<open>${error}\<close>) is the parameter \<open>render\<close>.
  What the function does besides returning is kept as a list of events: one \<open>Invoke\<close>
  for each call of \<open>fn\<close>, one \<open>Wait d\<close> for each \<open>setTimeout(resolve, d)\<close> awaited;
  \<open>delay\<close> is only handed to the timer and is an integer (milliseconds).

  \<open>retries\<close> is a \<open>number\<close>: any finite value, whole or not, \<open>NaN\<close>, or an
  infinity. A finite number is the rational it denotes. The counter \<open>i\<close> runs through
  \<open>0, 1, 2, ...\<close> exactly (it stays far below \<open>2^53\<close>). \<open>counter_less i retries\<close>
  is the loop test \<open>i < retries\<close> and \<open>counter_is_last i retries\<close> the test
  \<open>i === retries - 1\<close>: every comparison with \<open>NaN\<close> is false, a counter is below
  \<open>Infinity\<close> and never equal to \<open>Infinity - 1\<close>. With \<open>retries = Infinity\<close> and an
  operation that fails for ever the loop does not end; the result \<open>None\<close> stands for a
  call that never returns.
\<close>

datatype js_error = Error string

datatype event = Invoke | Wait int

datatype js_number = Num rat | NaN | PosInfinity | NegInfinity

type_synonym ('w, 'e, 'a) operation = "'w \<Rightarrow> ('e + 'a) \<times> 'w"

fun counter_less :: "nat \<Rightarrow> js_number \<Rightarrow> bool" where
  "counter_less i (Num q) = (of_nat i < q)"
| "counter_less i NaN = False"
| "counter_less i PosInfinity = True"
| "counter_less i NegInfinity = False"

fun counter_is_last :: "nat \<Rightarrow> js_number \<Rightarrow> bool" where
  "counter_is_last i (Num q) = (of_nat i = q - 1)"
| "counter_is_last i NaN = False"
| "counter_is_last i PosInfinity = False"
| "counter_is_last i NegInfinity = False"

partial_function (option) retry_loop ::
  "('w, 'e, 'a) operation \<Rightarrow> ('e \<Rightarrow> string) \<Rightarrow> js_number \<Rightarrow> int \<Rightarrow> nat \<Rightarrow> 'w
     \<Rightarrow> ((js_error + 'a) \<times> event list \<times> 'w) option" where
  "retry_loop fn render retries delay i w =
     (if counter_less i retries then
        (case fn w of
           (Inr v, w') \<Rightarrow> Some (Inr v, [Invoke], w')
         | (Inl error, w') \<Rightarrow>
             if counter_is_last i retries
             then Some (Inl (Error (''[ERROR]: '' @ render error)), [Invoke], w')
             else Option.bind (retry_loop fn render retries delay (i + 1) w')
                    (\<lambda>(r, evs, w''). Some (r, Invoke # Wait delay # evs, w'')))
      else Some (Inl (Error ''Falha inesperada no retry''), [], w))"

declare retry_loop.simps [code]

definition retry ::
  "('w, 'e, 'a) operation \<Rightarrow> ('e \<Rightarrow> string) \<Rightarrow> js_number \<Rightarrow> int \<Rightarrow> 'w
     \<Rightarrow> ((js_error + 'a) \<times> event list \<times> 'w) option" where
  "retry fn render retries delay w = retry_loop fn render retries delay 0 w"

text \<open>
  The mocks of the repository's test of \<open>retry\<close>
  (\<open>jest.fn().mockRejectedValue(new Error(msg))\<close>, \<open>jest.fn().mockResolvedValue(v)\<close> and
  \<open>jest.fn().mockRejectedValueOnce(new Error(msg)).mockResolvedValue(v)\<close>): the world is
  the number of calls made so far. \<open>render_Error\<close> is what \<open>${error}\<close> yields for
  \<open>new Error(msg)\<close>.
\<close>

definition render_Error :: "string \<Rightarrow> string" where
  "render_Error msg = ''Error: '' @ msg"

definition mock_rejected :: "string \<Rightarrow> (nat, string, string) operation" where
  "mock_rejected msg n = (Inl msg, Suc n)"

definition mock_resolved :: "string \<Rightarrow> (nat, string, string) operation" where
  "mock_resolved v n = (Inr v, Suc n)"

definition mock_rejected_once :: "string \<Rightarrow> string \<Rightarrow> (nat, string, string) operation" where
  "mock_rejected_once msg v n = (if n = 0 then Inl msg else Inr v, Suc n)"

text \<open>
  Vocabulary for the statements: the world after \<open>n\<close> consecutive calls of the
  operation, the outcome of call number \<open>j + 1\<close>, the events of \<open>k\<close> attempts with a
  wait of \<open>d\<close> between each two of them, the events of \<open>k\<close> attempts with a wait of
  \<open>d\<close> after each of them, and the numbers \<open>1, 2, 3, ...\<close> among the values of
  \<open>retries\<close>.
\<close>

primrec world_after :: "('w, 'e, 'a) operation \<Rightarrow> nat \<Rightarrow> 'w \<Rightarrow> 'w" where
  "world_after fn 0 w = w"
| "world_after fn (Suc n) w = world_after fn n (snd (fn w))"

definition outcome_at :: "('w, 'e, 'a) operation \<Rightarrow> nat \<Rightarrow> 'w \<Rightarrow> 'e + 'a" where
  "outcome_at fn j w = fst (fn (world_after fn j w))"

fun attempts_trace :: "nat \<Rightarrow> int \<Rightarrow> event list" where
  "attempts_trace 0 d = []"
| "attempts_trace (Suc 0) d = [Invoke]"
| "attempts_trace (Suc (Suc n)) d = Invoke # Wait d # attempts_trace (Suc n) d"

definition attempts_each_waited :: "nat \<Rightarrow> int \<Rightarrow> event list" where
  "attempts_each_waited k d = concat (replicate k [Invoke, Wait d])"

fun positive_integer :: "js_number \<Rightarrow> bool" where
  "positive_integer (Num q) = (1 \<le> q \<and> of_int \<lfloor>q\<rfloor> = q)"
| "positive_integer _ = False"

text \<open>
  The three ways a run that started with the counter at \<open>i\<close> can end after \<open>k\<close>
  attempts: with the value of attempt \<open>k\<close>; with the wrapped error of attempt \<open>k\<close>,
  which the test \<open>i === retries - 1\<close> took for the last one; or by leaving the loop
  after \<open>k\<close> failed attempts, none of which that test took for the last one, each
  followed by a wait.
\<close>

definition ends_with_value ::
  "('w, 'e, 'a) operation \<Rightarrow> js_number \<Rightarrow> int \<Rightarrow> nat \<Rightarrow> 'w \<Rightarrow> nat
     \<Rightarrow> (js_error + 'a) \<Rightarrow> event list \<Rightarrow> bool" where
  "ends_with_value fn retries delay i w k r evs \<longleftrightarrow>
     0 < k \<and> r = Inr (projr (outcome_at fn (k - 1) w)) \<and> \<not> isl (outcome_at fn (k - 1) w) \<and>
     (\<forall>j. Suc j < k \<longrightarrow> isl (outcome_at fn j w)) \<and>
     counter_less (i + (k - 1)) retries \<and> evs = attempts_trace k delay"

definition ends_with_wrapped ::
  "('w, 'e, 'a) operation \<Rightarrow> ('e \<Rightarrow> string) \<Rightarrow> js_number \<Rightarrow> int \<Rightarrow> nat \<Rightarrow> 'w \<Rightarrow> nat
     \<Rightarrow> (js_error + 'a) \<Rightarrow> event list \<Rightarrow> bool" where
  "ends_with_wrapped fn render retries delay i w k r evs \<longleftrightarrow>
     0 < k \<and> r = Inl (Error (''[ERROR]: '' @ render (projl (outcome_at fn (k - 1) w)))) \<and>
     (\<forall>j<k. isl (outcome_at fn j w)) \<and>
     counter_is_last (i + (k - 1)) retries \<and> evs = attempts_trace k delay"

definition falls_through ::
  "('w, 'e, 'a) operation \<Rightarrow> js_number \<Rightarrow> int \<Rightarrow> nat \<Rightarrow> 'w \<Rightarrow> nat
     \<Rightarrow> (js_error + 'a) \<Rightarrow> event list \<Rightarrow> bool" where
  "falls_through fn retries delay i w k r evs \<longleftrightarrow>
     r = Inl (Error ''Falha inesperada no retry'') \<and>
     (\<forall>j<k. counter_less (i + j) retries \<and> \<not> counter_is_last (i + j) retries \<and>
             isl (outcome_at fn j w)) \<and>
     \<not> counter_less (i + k) retries \<and> evs = attempts_each_waited k delay"

definition run_shape ::
  "('w, 'e, 'a) operation \<Rightarrow> ('e \<Rightarrow> string) \<Rightarrow> js_number \<Rightarrow> int \<Rightarrow> nat \<Rightarrow> 'w
     \<Rightarrow> (js_error + 'a) \<times> event list \<times> 'w \<Rightarrow> bool" where
  "run_shape fn render retries delay i w y \<longleftrightarrow>
     (\<exists>k. snd (snd y) = world_after fn k w \<and>
       (ends_with_value fn retries delay i w k (fst y) (fst (snd y)) \<or>
        ends_with_wrapped fn render retries delay i w k (fst y) (fst (snd y)) \<or>
        falls_through fn retries delay i w k (fst y) (fst (snd y))))"

section \<open>Cache keys: JSON.stringify on argument lists\<close>

text \<open>
  The cache key is built with the ECMAScript builtin \<open>JSON.stringify\<close>, which is not
  code of the repository. It is written out here as ECMA-262 defines it
  (SerializeJSONProperty with an empty gap) on the values it is applied to in the
  statements below: \<open>null\<close>, booleans, integers that a double holds exactly and
  prints in plain decimal, strings of code units below 256, arrays, and plain objects. An
  object is the list of its own properties in the order \<open>JSON.stringify\<close> visits
  them, which for string keys is insertion order; a JavaScript object has each key once.
\<close>

datatype json = JNull | JBool bool | JNum int | JStr string | JArr "json list"
  | JObj "(string \<times> json) list"

fun show_nat :: "nat \<Rightarrow> string" where
  "show_nat n = (if n < 10 then [''0123456789'' ! n]
                 else show_nat (n div 10) @ [''0123456789'' ! (n mod 10)])"

declare show_nat.simps [simp del]

definition show_int :: "int \<Rightarrow> string" where
  "show_int i = (if i < 0 then CHR ''-'' # show_nat (nat (- i)) else show_nat (nat i))"

definition escape_char :: "char \<Rightarrow> string" where
  "escape_char c =
     (if c = CHR 0x08 then [CHR 0x5C, CHR ''b'']
      else if c = CHR 0x09 then [CHR 0x5C, CHR ''t'']
      else if c = CHR 0x0A then [CHR 0x5C, CHR ''n'']
      else if c = CHR 0x0C then [CHR 0x5C, CHR ''f'']
      else if c = CHR 0x0D then [CHR 0x5C, CHR ''r'']
      else if c = CHR 0x22 then [CHR 0x5C, CHR 0x22]
      else if c = CHR 0x5C then [CHR 0x5C, CHR 0x5C]
      else if (of_char c :: nat) < 0x20 then
        [CHR 0x5C, CHR ''u'', CHR ''0'', CHR ''0'',
         ''0123456789abcdef'' ! (of_char c div 16), ''0123456789abcdef'' ! (of_char c mod 16)]
      else [c])"

definition QuoteJSONString :: "string \<Rightarrow> string" where
  "QuoteJSONString s = CHR 0x22 # concat (map escape_char s) @ [CHR 0x22]"

fun join :: "string \<Rightarrow> string list \<Rightarrow> string" where
  "join sep [] = []"
| "join sep [x] = x"
| "join sep (x # y # ys) = x @ sep @ join sep (y # ys)"

fun JSON_stringify :: "json \<Rightarrow> string" where
  "JSON_stringify JNull = ''null''"
| "JSON_stringify (JBool b) = (if b then ''true'' else ''false'')"
| "JSON_stringify (JNum n) = show_int n"
| "JSON_stringify (JStr s) = QuoteJSONString s"
| "JSON_stringify (JArr xs) = ''['' @ join '','' (map JSON_stringify xs) @ '']''"
| "JSON_stringify (JObj fs) =
     ''{'' @ join '','' (map (\<lambda>(k, v). QuoteJSONString k @ '':'' @ JSON_stringify v) fs) @ ''}''"

text \<open>
  Deep equality of two argument structures, as \<open>assert.deepStrictEqual\<close> or Jest's
  \<open>toEqual\<close> decide it on these values: arrays are compared position by position,
  objects by their sets of keys and the values under each key, whatever the order in
  which the fields were inserted. \<open>same_field_order\<close> says that two structures list
  the fields of corresponding objects in the same order.
\<close>

fun deep_equal :: "json \<Rightarrow> json \<Rightarrow> bool" where
  "deep_equal JNull JNull = True"
| "deep_equal (JBool a) (JBool b) = (a = b)"
| "deep_equal (JNum a) (JNum b) = (a = b)"
| "deep_equal (JStr a) (JStr b) = (a = b)"
| "deep_equal (JArr xs) (JArr ys) = list_all2 deep_equal xs ys"
| "deep_equal (JObj fs) (JObj gs) =
     (set (map fst fs) = set (map fst gs) \<and>
      (\<forall>(k, v) \<in> set fs. \<forall>(k', v') \<in> set gs. k = k' \<longrightarrow> deep_equal v v'))"
| "deep_equal _ _ = False"

fun same_field_order :: "json \<Rightarrow> json \<Rightarrow> bool" where
  "same_field_order (JArr xs) (JArr ys) = list_all2 same_field_order xs ys"
| "same_field_order (JObj fs) (JObj gs) =
     (map fst fs = map fst gs \<and> list_all2 same_field_order (map snd fs) (map snd gs))"
| "same_field_order _ _ = True"

text \<open>
  The characters that \<open>escape_char\<close> writes as a backslash and one letter, and the
  text of one member of an object.
\<close>

definition escaped_short :: "char set" where
  "escaped_short = {CHR 0x08, CHR 0x09, CHR 0x0A, CHR 0x0C, CHR 0x0D, CHR 0x22, CHR 0x5C}"

definition member_text :: "string \<times> json \<Rightarrow> string" where
  "member_text kv = QuoteJSONString (fst kv) @ '':'' @ JSON_stringify (snd kv)"

text \<open>
  The values on which \<open>JSON_stringify\<close> above is \<open>JSON.stringify\<close> exactly: the
  numbers are safe integers (of magnitude below \<open>2^53\<close>), an object has each key
  once, and no key is written with digits only, so that no key is an array index and the
  order in which the fields are visited is the order in which they were inserted.
\<close>

definition digits_only :: "string \<Rightarrow> bool" where
  "digits_only k \<longleftrightarrow> k \<noteq> [] \<and> (\<forall>c \<in> set k. c \<in> set ''0123456789'')"

fun plain_json :: "json \<Rightarrow> bool" where
  "plain_json (JNum n) = (\<bar>n\<bar> \<le> 9007199254740991)"
| "plain_json (JArr xs) = (\<forall>x \<in> set xs. plain_json x)"
| "plain_json (JObj fs) =
     (distinct (map fst fs) \<and> (\<forall>(k, v) \<in> set fs. \<not> digits_only k \<and> plain_json v))"
| "plain_json _ = True"

section \<open>The Cache decorator (src/decorators/index.ts)\<close>

text \<open>
  \<^verbatim>\<open>
  export function Cache(ttl: number) {
    const cache = new Map<string, { valor: any; expira: number }>();
    return function (target: any, key: string, descriptor: PropertyDescriptor) {
      const original = descriptor.value;
      descriptor.value = function (...args: any[]) {
        const chaveCache = `${key}:${JSON.stringify(args)}`;
        if (cache.has(chaveCache)) {
          const item = cache.get(chaveCache);
          if (item && Date.now() < item.expira) {
            return item.valor;
          }
          cache.delete(chaveCache);
        }
        const resultado = original.apply(this, args);
        cache.set(chaveCache, { valor: resultado, expira: Date.now() + ttl });
        return resultado;
      };
    };
  }
  \<close>

  \<open>Cache(ttl)\<close> creates the map once, when the decorator is applied to the method; the
  replacement method closes over it. The state of a decorated method is therefore one map,
  together with the world that \<open>original\<close> reads and changes, and, for the statements
  about how often \<open>original\<close> runs, the list of the calls \<open>original.apply(this, args)\<close>
  made so far. The receiver \<open>this\<close> is an argument of each call and is handed on to
  \<open>original\<close>. \<open>original\<close> either throws (\<open>Inl\<close>) or returns a value (\<open>Inr\<close>); it
  does not call the decorated method again while it runs. The two readings of
  \<open>Date.now()\<close>, in the expiry test and when the entry is stored, are the arguments
  \<open>now_read\<close> and \<open>now_write\<close>; \<open>ttl\<close> and the clock are integers (milliseconds).
  \<open>compute\<close> is the tail of the replacement method, from \<open>original.apply\<close> on.
\<close>

record 'v item =
  valor :: 'v
  expira :: int

record ('self, 'w, 'v) cache_state =
  cache :: "string \<rightharpoonup> 'v item"
  world :: 'w
  applied :: "('self \<times> json list) list"

type_synonym ('self, 'w, 'e, 'v) js_method = "'self \<Rightarrow> json list \<Rightarrow> 'w \<Rightarrow> ('e + 'v) \<times> 'w"

definition chaveCache :: "string \<Rightarrow> json list \<Rightarrow> string" where
  "chaveCache key args = key @ '':'' @ JSON_stringify (JArr args)"

definition compute ::
  "int \<Rightarrow> ('self, 'w, 'e, 'v) js_method \<Rightarrow> 'self \<Rightarrow> json list \<Rightarrow> int \<Rightarrow> string
     \<Rightarrow> ('self, 'w, 'v) cache_state \<Rightarrow> ('e + 'v) \<times> ('self, 'w, 'v) cache_state" where
  "compute ttl original this args now chave s =
     (case original this args (world s) of
        (Inl e, w) \<Rightarrow> (Inl e, s\<lparr>world := w, applied := applied s @ [(this, args)]\<rparr>)
      | (Inr resultado, w) \<Rightarrow>
          (Inr resultado,
           s\<lparr>cache := (cache s)(chave \<mapsto> \<lparr>valor = resultado, expira = now + ttl\<rparr>),
             world := w, applied := applied s @ [(this, args)]\<rparr>))"

definition Cache ::
  "int \<Rightarrow> string \<Rightarrow> ('self, 'w, 'e, 'v) js_method \<Rightarrow> 'self \<Rightarrow> json list \<Rightarrow> int \<Rightarrow> int
     \<Rightarrow> ('self, 'w, 'v) cache_state \<Rightarrow> ('e + 'v) \<times> ('self, 'w, 'v) cache_state" where
  "Cache ttl key original this args now_read now_write s =
     (let chave = chaveCache key args in
      case cache s chave of
        Some item \<Rightarrow>
          if now_read < expira item then (Inr (valor item), s)
          else compute ttl original this args now_write chave
                 (s\<lparr>cache := (cache s)(chave := None)\<rparr>)
      | None \<Rightarrow> compute ttl original this args now_write chave s)"

text \<open>
  The values a method returns: a plain value, or, for an \<open>async\<close> method, a promise.
  A promise is its identity and the settlement it reaches: rejected (\<open>Inl\<close>) or
  fulfilled (\<open>Inr\<close>). An invocation has failed when it threw or when the promise it
  returned rejects.
\<close>

datatype ('e, 'a) js_value = Plain 'a | Pending nat "'e + 'a"

fun failed :: "'e + ('e, 'a) js_value \<Rightarrow> bool" where
  "failed (Inl e) = True"
| "failed (Inr (Plain v)) = False"
| "failed (Inr (Pending p out)) = isl out"

text \<open>
  Methods, states and arguments for the concrete runs: \<open>async\<close> methods that
  reject and that fulfil, a method that throws, one that doubles its argument, one that
  answers with the number of calls made before, one that answers with a field of its
  receiver; and two argument lists holding the same object with its fields inserted in
  the two orders.
\<close>

definition empty_state :: "'w \<Rightarrow> ('self, 'w, 'v) cache_state" where
  "empty_state w = \<lparr>cache = Map.empty, world = w, applied = []\<rparr>"

definition rejecting_async :: "(nat, nat, string, (string, int) js_value) js_method" where
  "rejecting_async this args w = (Inr (Pending w (Inl ''boom'')), Suc w)"

definition doubling :: "(nat, nat, string, (string, int) js_value) js_method" where
  "doubling this args w =
     (case args of [JNum n] \<Rightarrow> Inr (Plain (2 * n)) | _ \<Rightarrow> Inl ''TypeError'', Suc w)"

definition whoami :: "(nat, nat, string, (string, int) js_value) js_method" where
  "whoami this args w = (Inr (Plain (int this)), Suc w)"

definition resolving_async :: "(nat, nat, string, (string, int) js_value) js_method" where
  "resolving_async this args w = (Inr (Pending w (Inr 10)), Suc w)"

definition throwing :: "(nat, nat, string, (string, int) js_value) js_method" where
  "throwing this args w = (Inl ''boom'', Suc w)"

definition counting :: "(nat, nat, string, (string, int) js_value) js_method" where
  "counting this args w = (Inr (Plain (int w)), Suc w)"

definition args_ab :: "json list" where
  "args_ab = [JObj [(''a'', JNum 1), (''b'', JNum 2)]]"

definition args_ba :: "json list" where
  "args_ba = [JObj [(''b'', JNum 2), (''a'', JNum 1)]]"

text \<open>Relabelling the waits of a list of events, to compare runs under two delays.\<close>

definition set_delay :: "int \<Rightarrow> event \<Rightarrow> event" where
  "set_delay d ev = (case ev of Invoke \<Rightarrow> Invoke | Wait _ \<Rightarrow> Wait d)"

text \<open>
  A result with its waits relabelled, and the statement that a run from counter \<open>i\<close>
  gives, under every delay, the same result up to that relabelling.
\<close>

definition relabel ::
  "int \<Rightarrow> (js_error + 'a) \<times> event list \<times> 'w \<Rightarrow> (js_error + 'a) \<times> event list \<times> 'w" where
  "relabel d y = (fst y, map (set_delay d) (fst (snd y)), snd (snd y))"

definition delay_free ::
  "('w, 'e, 'a) operation \<Rightarrow> ('e \<Rightarrow> string) \<Rightarrow> js_number \<Rightarrow> int \<Rightarrow> nat \<Rightarrow> 'w
     \<Rightarrow> (js_error + 'a) \<times> event list \<times> 'w \<Rightarrow> bool" where
  "delay_free fn render retries delay i w y \<longleftrightarrow>
     (\<forall>d. retry_loop fn render retries d i w = Some (relabel d y))"

section \<open>Properties of retry\<close>

lemma outcome_at_0: "outcome_at fn 0 w = fst (fn w)"
  by (simp add: outcome_at_def)

lemma outcome_at_Suc: "outcome_at fn (Suc j) w = outcome_at fn j (snd (fn w))"
  by (simp add: outcome_at_def)

lemma count_attempts_trace: "count_list (attempts_trace k d) Invoke = k"
  by (induction k d rule: attempts_trace.induct) auto

lemma length_attempts_trace: "length (attempts_trace k d) = 2 * k - 1"
  by (induction k d rule: attempts_trace.induct) auto

lemma nth_attempts_trace:
  "n < 2 * k - 1 \<Longrightarrow> attempts_trace k d ! n = (if even n then Invoke else Wait d)"
proof (induction k d arbitrary: n rule: attempts_trace.induct)
  case (1 d)
  then show ?case by simp
next
  case (2 d)
  then show ?case by simp
next
  case (3 k d)
  show ?case
  proof (cases n)
    case 0
    then show ?thesis by simp
  next
    case (Suc n1)
    show ?thesis
    proof (cases n1)
      case 0
      with Suc show ?thesis by simp
    next
      case (Suc n2)
      with \<open>n = Suc n1\<close> 3 show ?thesis by simp
    qed
  qed
qed

lemma attempts_each_waited_0: "attempts_each_waited 0 d = []"
  by (simp add: attempts_each_waited_def)

lemma attempts_each_waited_Suc:
  "attempts_each_waited (Suc k) d = Invoke # Wait d # attempts_each_waited k d"
  by (simp add: attempts_each_waited_def)

lemma count_attempts_each_waited: "count_list (attempts_each_waited k d) Invoke = k"
  by (induction k) (simp_all add: attempts_each_waited_0 attempts_each_waited_Suc)

lemma length_attempts_each_waited: "length (attempts_each_waited k d) = 2 * k"
  by (induction k) (simp_all add: attempts_each_waited_0 attempts_each_waited_Suc)

lemma nth_attempts_each_waited:
  "n < 2 * k \<Longrightarrow> attempts_each_waited k d ! n = (if even n then Invoke else Wait d)"
proof (induction k arbitrary: n)
  case 0
  then show ?case by simp
next
  case (Suc k)
  show ?case
  proof (cases n)
    case 0
    then show ?thesis by (simp add: attempts_each_waited_Suc)
  next
    case (Suc n1)
    show ?thesis
    proof (cases n1)
      case 0
      with Suc show ?thesis by (simp add: attempts_each_waited_Suc)
    next
      case (Suc n2)
      with \<open>n = Suc n1\<close> Suc.prems Suc.IH [of n2] show ?thesis
        by (simp add: attempts_each_waited_Suc)
    qed
  qed
qed

lemma attempts_each_waited_eq:
  "0 < k \<Longrightarrow> attempts_each_waited k d = attempts_trace k d @ [Wait d]"
proof (induction k)
  case 0
  then show ?case by simp
next
  case (Suc k)
  show ?case
  proof (cases k)
    case 0
    then show ?thesis by (simp add: attempts_each_waited_Suc attempts_each_waited_0)
  next
    case (Suc k')
    with Suc.IH show ?thesis by (simp add: attempts_each_waited_Suc)
  qed
qed

lemma alternating_attempts_trace:
  "\<forall>n<length (attempts_trace k d). attempts_trace k d ! n = (if even n then Invoke else Wait d)"
  by (simp add: length_attempts_trace nth_attempts_trace)

lemma alternating_attempts_each_waited:
  "\<forall>n<length (attempts_each_waited k d).
     attempts_each_waited k d ! n = (if even n then Invoke else Wait d)"
  by (simp add: length_attempts_each_waited nth_attempts_each_waited)

lemma last_attempts_trace: "0 < k \<Longrightarrow> last (attempts_trace k d) = Invoke"
proof -
  assume k: "0 < k"
  then have ne: "attempts_trace k d \<noteq> []" using length_attempts_trace [of k d] by auto
  then have "last (attempts_trace k d) = attempts_trace k d ! (2 * k - 1 - 1)"
    by (simp add: last_conv_nth length_attempts_trace)
  also have "\<dots> = Invoke"
    using k by (subst nth_attempts_trace) auto
  finally show ?thesis .
qed

lemma counter_less_mono: "counter_less j retries \<Longrightarrow> j' \<le> j \<Longrightarrow> counter_less j' retries"
proof (cases retries)
  case (Num q)
  assume "counter_less j retries" "j' \<le> j"
  with Num have "of_nat j < q" "(of_nat j' :: rat) \<le> of_nat j" by simp_all
  then have "of_nat j' < q" by (rule le_less_trans [rotated])
  with Num show ?thesis by simp
qed simp_all

lemma not_last_before: "counter_less (Suc j) retries \<Longrightarrow> \<not> counter_is_last j retries"
  by (cases retries) auto

lemma last_is_less: "counter_is_last j retries \<Longrightarrow> counter_less j retries"
  by (cases retries) auto

lemma positive_integer_iff:
  "positive_integer retries \<longleftrightarrow> (\<exists>N\<ge>1. retries = Num (of_nat N))"
proof
  assume p: "positive_integer retries"
  then obtain q where q: "retries = Num q" "1 \<le> q" "of_int \<lfloor>q\<rfloor> = q"
    by (cases retries) auto
  from q(2) have f: "1 \<le> \<lfloor>q\<rfloor>" by (simp add: le_floor_iff)
  then have "of_nat (nat \<lfloor>q\<rfloor>) = (of_int \<lfloor>q\<rfloor> :: rat)" by simp
  then have a: "of_nat (nat \<lfloor>q\<rfloor>) = q" using q(3) by (rule trans)
  from f have b: "1 \<le> nat \<lfloor>q\<rfloor>" by linarith
  from a q(1) have "retries = Num (of_nat (nat \<lfloor>q\<rfloor>))" by (simp only:)
  with b show "\<exists>N\<ge>1. retries = Num (of_nat N)" by blast
next
  assume "\<exists>N\<ge>1. retries = Num (of_nat N)"
  then show "positive_integer retries" by auto
qed

lemma positive_integer_last:
  "positive_integer retries \<longleftrightarrow> (\<exists>j. counter_is_last j retries)"
proof
  assume "positive_integer retries"
  then obtain N where N: "1 \<le> N" "retries = Num (of_nat N)"
    by (auto simp: positive_integer_iff)
  then have "counter_is_last (N - 1) retries" by (simp add: of_nat_diff)
  then show "\<exists>j. counter_is_last j retries" ..
next
  assume "\<exists>j. counter_is_last j retries"
  then obtain j where "counter_is_last j retries" ..
  then obtain q where "retries = Num q" "of_nat j = q - 1" by (cases retries) auto
  then have "retries = Num (of_nat (Suc j))" by simp
  then show "positive_integer retries" unfolding positive_integer_iff by (intro exI [of _ "Suc j"]) simp
qed

lemma fails_first:
  assumes "isl (outcome_at fn 0 w)"
  obtains e w1 where "fn w = (Inl e, w1)"
  using assms by (cases "fn w"; cases "fst (fn w)") (auto simp: outcome_at_0)

lemma first_success:
  assumes "\<not> (\<forall>j<N. isl (outcome_at fn j w))"
  obtains k v where "k < N" "\<forall>j<k. isl (outcome_at fn j w)" "outcome_at fn k w = Inr v"
proof -
  define k where "k = (LEAST j. \<not> isl (outcome_at fn j w))"
  from assms obtain j0 where j0: "j0 < N" "\<not> isl (outcome_at fn j0 w)" by blast
  from j0(2) have a: "\<not> isl (outcome_at fn k w)" unfolding k_def by (rule LeastI)
  have b: "\<forall>j<k. isl (outcome_at fn j w)"
    using not_less_Least [of _ "\<lambda>j. \<not> isl (outcome_at fn j w)"] unfolding k_def by blast
  from j0(2) have "k \<le> j0" unfolding k_def by (rule Least_le)
  with j0(1) have c: "k < N" by simp
  from a obtain v where "outcome_at fn k w = Inr v" by (cases "outcome_at fn k w") auto
  with b c that show ?thesis by blast
qed

lemma stops_somewhere:
  assumes "retries \<noteq> PosInfinity"
  obtains n where "\<not> counter_less n retries" "\<forall>j<n. counter_less j retries"
proof -
  have ex: "\<exists>n. \<not> counter_less n retries"
  proof (cases retries)
    case (Num q)
    obtain n where "q \<le> of_nat n" using real_arch_simple by blast
    with Num have "\<not> counter_less n retries" by simp
    then show ?thesis ..
  qed (use assms in simp_all)
  define n where "n = (LEAST n. \<not> counter_less n retries)"
  from ex have a: "\<not> counter_less n retries" unfolding n_def by (rule LeastI_ex)
  have b: "\<forall>j<n. counter_less j retries"
    using not_less_Least [of _ "\<lambda>n. \<not> counter_less n retries"] unfolding n_def by blast
  from a b show ?thesis by (rule that)
qed

lemma retry_loop_success:
  "counter_less (i + k) retries \<Longrightarrow> \<forall>j<k. isl (outcome_at fn j w) \<Longrightarrow>
   outcome_at fn k w = Inr v \<Longrightarrow>
   retry_loop fn render retries delay i w =
     Some (Inr v, attempts_trace (Suc k) delay, world_after fn (Suc k) w)"
proof (induction k arbitrary: i w)
  case 0
  then obtain w' where "fn w = (Inr v, w')"
    by (cases "fn w") (auto simp: outcome_at_0)
  with 0 show ?case by (subst retry_loop.simps) simp
next
  case (Suc k)
  from Suc.prems(2) have "isl (outcome_at fn 0 w)" by blast
  then obtain e w' where fw: "fn w = (Inl e, w')" by (rule fails_first)
  have rest: "\<forall>j<k. isl (outcome_at fn j w')"
    using Suc.prems(2) fw by (auto simp: outcome_at_Suc dest: spec [of _ "Suc _"])
  have last: "outcome_at fn k w' = Inr v"
    using Suc.prems(3) fw by (simp add: outcome_at_Suc)
  have less: "counter_less (Suc i + k) retries" using Suc.prems(1) by simp
  then have here: "counter_less i retries" "counter_less (Suc i) retries"
    by (auto elim: counter_less_mono)
  then have nl: "\<not> counter_is_last i retries" by (simp add: not_last_before)
  from Suc.IH [OF less rest last] here(1) nl fw show ?case
    by (subst retry_loop.simps) (simp add: outcome_at_Suc)
qed

lemma retry_loop_exhausted:
  "counter_is_last (i + m) retries \<Longrightarrow> \<forall>j\<le>m. isl (outcome_at fn j w) \<Longrightarrow>
   retry_loop fn render retries delay i w =
     Some (Inl (Error (''[ERROR]: '' @ render (projl (outcome_at fn m w)))),
           attempts_trace (Suc m) delay, world_after fn (Suc m) w)"
proof (induction m arbitrary: i w)
  case 0
  then have "isl (outcome_at fn 0 w)" by simp
  then obtain e w' where "fn w = (Inl e, w')" by (rule fails_first)
  with 0 last_is_less [of i retries] show ?case
    by (subst retry_loop.simps) (simp add: outcome_at_0)
next
  case (Suc m)
  from Suc.prems(2) have "isl (outcome_at fn 0 w)" by blast
  then obtain e w' where fw: "fn w = (Inl e, w')" by (rule fails_first)
  have rest: "\<forall>j\<le>m. isl (outcome_at fn j w')"
    using Suc.prems(2) fw by (auto simp: outcome_at_Suc dest: spec [of _ "Suc _"])
  have last: "counter_is_last (Suc i + m) retries" using Suc.prems(1) by simp
  then have "counter_less (Suc i + m) retries" by (rule last_is_less)
  then have here: "counter_less i retries" "counter_less (Suc i) retries"
    by (auto elim: counter_less_mono)
  then have nl: "\<not> counter_is_last i retries" by (simp add: not_last_before)
  from Suc.IH [OF last rest] here(1) nl fw show ?case
    by (subst retry_loop.simps) (simp add: outcome_at_Suc)
qed

lemma retry_loop_fall_through:
  "\<forall>j<n. counter_less (i + j) retries \<and> \<not> counter_is_last (i + j) retries \<and>
           isl (outcome_at fn j w) \<Longrightarrow>
   \<not> counter_less (i + n) retries \<Longrightarrow>
   retry_loop fn render retries delay i w =
     Some (Inl (Error ''Falha inesperada no retry''), attempts_each_waited n delay,
           world_after fn n w)"
proof (induction n arbitrary: i w)
  case 0
  then show ?case by (subst retry_loop.simps) (simp add: attempts_each_waited_0)
next
  case (Suc n)
  from Suc.prems(1) have first: "counter_less i retries" "\<not> counter_is_last i retries"
    "isl (outcome_at fn 0 w)"
    by (auto dest: spec [of _ 0])
  from first(3) obtain e w' where fw: "fn w = (Inl e, w')" by (rule fails_first)
  have rest: "\<forall>j<n. counter_less (Suc i + j) retries \<and> \<not> counter_is_last (Suc i + j) retries \<and>
                    isl (outcome_at fn j w')"
    using Suc.prems(1) fw by (auto simp: outcome_at_Suc dest: spec [of _ "Suc _"])
  have stop: "\<not> counter_less (Suc i + n) retries" using Suc.prems(2) by simp
  from Suc.IH [OF rest stop] first(1,2) fw show ?case
    by (subst retry_loop.simps) (simp add: attempts_each_waited_Suc)
qed

lemma retry_loop_shape_step:
  fixes rl :: "('w, 'e, 'a) operation \<Rightarrow> ('e \<Rightarrow> string) \<Rightarrow> js_number \<Rightarrow> int \<Rightarrow> nat \<Rightarrow> 'w
     \<Rightarrow> ((js_error + 'a) \<times> event list \<times> 'w) option"
  assumes hyp: "\<And>fn render retries delay i w y.
      rl fn render retries delay i w = Some y \<Longrightarrow> run_shape fn render retries delay i w y"
    and eq: "(if counter_less i retries then
        (case fn w of
           (Inr v, w') \<Rightarrow> Some (Inr v, [Invoke], w')
         | (Inl error, w') \<Rightarrow>
             if counter_is_last i retries
             then Some (Inl (Error (''[ERROR]: '' @ render error)), [Invoke], w')
             else Option.bind (rl fn render retries delay (i + 1) w')
                    (\<lambda>(r, evs, w''). Some (r, Invoke # Wait delay # evs, w'')))
      else Some (Inl (Error ''Falha inesperada no retry''), [], w)) = Some y"
  shows "run_shape fn render retries delay i w y"
proof -
  obtain r evs w' where y: "y = (r, evs, w')" by (cases y)
  note run = eq [unfolded y]
  have IH: "\<And>w1 r evs2 w'. rl fn render retries delay (i + 1) w1 = Some (r, evs2, w') \<Longrightarrow>
    \<exists>k. w' = world_after fn k w1 \<and>
       (ends_with_value fn retries delay (i + 1) w1 k r evs2 \<or>
        ends_with_wrapped fn render retries delay (i + 1) w1 k r evs2 \<or>
        falls_through fn retries delay (i + 1) w1 k r evs2)"
    using hyp by (fastforce simp: run_shape_def)
  have "\<exists>k. w' = world_after fn k w \<and>
       (ends_with_value fn retries delay i w k r evs \<or>
        ends_with_wrapped fn render retries delay i w k r evs \<or>
        falls_through fn retries delay i w k r evs)"
  proof (cases "counter_less i retries")
    case False
    with run have "r = Inl (Error ''Falha inesperada no retry'')" "evs = []" "w' = w"
      by simp_all
    with False have "falls_through fn retries delay i w 0 r evs" "w' = world_after fn 0 w"
      by (simp_all add: falls_through_def attempts_each_waited_0)
    then show ?thesis by blast
  next
    case True
    obtain x w1 where fw: "fn w = (x, w1)" by (cases "fn w")
    show ?thesis
    proof (cases x)
      case (Inr v)
      with run True fw have "r = Inr v" "evs = [Invoke]" "w' = w1" by simp_all
      with True fw Inr have "ends_with_value fn retries delay i w (Suc 0) r evs"
        "w' = world_after fn (Suc 0) w"
        by (simp_all add: ends_with_value_def outcome_at_0)
      then show ?thesis by blast
    next
      case (Inl e)
      show ?thesis
      proof (cases "counter_is_last i retries")
        case True
        with run \<open>counter_less i retries\<close> fw Inl
        have "r = Inl (Error (''[ERROR]: '' @ render e))" "evs = [Invoke]" "w' = w1"
          by simp_all
        with True fw Inl have "ends_with_wrapped fn render retries delay i w (Suc 0) r evs"
          "w' = world_after fn (Suc 0) w"
          by (simp_all add: ends_with_wrapped_def outcome_at_0)
        then show ?thesis by blast
      next
        case False
        from run True fw Inl False
        have b: "Option.bind (rl fn render retries delay (i + 1) w1)
                   (\<lambda>(r, evs, w''). Some (r, Invoke # Wait delay # evs, w'')) = Some (r, evs, w')"
          by simp
        then obtain evs2 where rec: "rl fn render retries delay (i + 1) w1 = Some (r, evs2, w')"
          and evs: "evs = Invoke # Wait delay # evs2"
          by (auto simp: bind_eq_Some_conv)
        from IH [OF rec]
        obtain k where w': "w' = world_after fn k w1"
          and shape: "ends_with_value fn retries delay (i + 1) w1 k r evs2 \<or>
                ends_with_wrapped fn render retries delay (i + 1) w1 k r evs2 \<or>
                falls_through fn retries delay (i + 1) w1 k r evs2"
          by blast
        have w'': "w' = world_after fn (Suc k) w" using w' fw by simp
        have fails: "isl (outcome_at fn 0 w)" using fw Inl by (simp add: outcome_at_0)
        from shape consider
            (returned) "ends_with_value fn retries delay (i + 1) w1 k r evs2"
          | (wrapped) "ends_with_wrapped fn render retries delay (i + 1) w1 k r evs2"
          | (fall) "falls_through fn retries delay (i + 1) w1 k r evs2"
          by blast
        then show ?thesis
        proof cases
          case returned
          from returned have k: "0 < k" by (simp add: ends_with_value_def)
          then obtain k' where k': "k = Suc k'" by (cases k) auto
          have all: "\<forall>j. Suc j < Suc k \<longrightarrow> isl (outcome_at fn j w)"
          proof (intro allI impI)
            fix j assume j: "Suc j < Suc k"
            show "isl (outcome_at fn j w)"
            proof (cases j)
              case 0
              with fails show ?thesis by simp
            next
              case (Suc j')
              with j returned fw show ?thesis
                by (simp add: ends_with_value_def outcome_at_Suc)
            qed
          qed
          from returned k' fw evs all
          have "ends_with_value fn retries delay i w (Suc k) r evs"
            by (simp add: ends_with_value_def outcome_at_Suc)
          with w'' show ?thesis by blast
        next
          case wrapped
          then have k: "0 < k" by (simp add: ends_with_wrapped_def)
          then obtain k' where k': "k = Suc k'" by (cases k) auto
          have all: "\<forall>j<Suc k. isl (outcome_at fn j w)"
          proof (intro allI impI)
            fix j assume j: "j < Suc k"
            show "isl (outcome_at fn j w)"
            proof (cases j)
              case 0
              with fails show ?thesis by simp
            next
              case (Suc j')
              with j wrapped fw show ?thesis
                by (simp add: ends_with_wrapped_def outcome_at_Suc)
            qed
          qed
          from wrapped k' fw evs all
          have "ends_with_wrapped fn render retries delay i w (Suc k) r evs"
            by (simp add: ends_with_wrapped_def outcome_at_Suc)
          with w'' show ?thesis by blast
        next
          case fall
          have all: "\<forall>j<Suc k. counter_less (i + j) retries \<and>
                       \<not> counter_is_last (i + j) retries \<and> isl (outcome_at fn j w)"
          proof (intro allI impI)
            fix j assume j: "j < Suc k"
            show "counter_less (i + j) retries \<and> \<not> counter_is_last (i + j) retries \<and>
                  isl (outcome_at fn j w)"
            proof (cases j)
              case 0
              with fails True False show ?thesis by simp
            next
              case (Suc j')
              with j fall fw show ?thesis
                by (simp add: falls_through_def outcome_at_Suc)
            qed
          qed
          from fall evs all
          have "falls_through fn retries delay i w (Suc k) r evs"
            by (simp add: falls_through_def attempts_each_waited_Suc)
          with w'' show ?thesis by blast
        qed
      qed
    qed
  qed
  then show ?thesis by (simp add: y run_shape_def)
qed

lemma retry_loop_shape:
  assumes "retry_loop fn render retries delay i w = Some (r, evs, w')"
  shows "\<exists>k. w' = world_after fn k w \<and>
       (ends_with_value fn retries delay i w k r evs \<or>
        ends_with_wrapped fn render retries delay i w k r evs \<or>
        falls_through fn retries delay i w k r evs)"
proof -
  have "run_shape fn render retries delay i w (r, evs, w')"
    by (rule retry_loop.raw_induct [where P = run_shape, OF _ assms])
      (rule retry_loop_shape_step)
  then show ?thesis by (simp add: run_shape_def)
qed

lemma retry_loop_delay_step:
  fixes rl :: "('w, 'e, 'a) operation \<Rightarrow> ('e \<Rightarrow> string) \<Rightarrow> js_number \<Rightarrow> int \<Rightarrow> nat \<Rightarrow> 'w
     \<Rightarrow> ((js_error + 'a) \<times> event list \<times> 'w) option"
  assumes hyp: "\<And>fn render retries delay i w y.
      rl fn render retries delay i w = Some y \<Longrightarrow> delay_free fn render retries delay i w y"
    and eq: "(if counter_less i retries then
        (case fn w of
           (Inr v, w') \<Rightarrow> Some (Inr v, [Invoke], w')
         | (Inl error, w') \<Rightarrow>
             if counter_is_last i retries
             then Some (Inl (Error (''[ERROR]: '' @ render error)), [Invoke], w')
             else Option.bind (rl fn render retries delay (i + 1) w')
                    (\<lambda>(r, evs, w''). Some (r, Invoke # Wait delay # evs, w'')))
      else Some (Inl (Error ''Falha inesperada no retry''), [], w)) = Some y"
  shows "delay_free fn render retries delay i w y"
  unfolding delay_free_def
proof
  fix d
  show "retry_loop fn render retries d i w = Some (relabel d y)"
  proof (cases "counter_less i retries")
    case False
    with eq have "y = (Inl (Error ''Falha inesperada no retry''), [], w)" by simp
    with False show ?thesis by (subst retry_loop.simps) (simp add: relabel_def)
  next
    case True
    obtain x w1 where fw: "fn w = (x, w1)" by (cases "fn w")
    show ?thesis
    proof (cases x)
      case (Inr v)
      with eq True fw have "y = (Inr v, [Invoke], w1)" by simp
      with True fw Inr show ?thesis
        by (subst retry_loop.simps) (simp add: relabel_def set_delay_def)
    next
      case (Inl e)
      show ?thesis
      proof (cases "counter_is_last i retries")
        case True
        with eq \<open>counter_less i retries\<close> fw Inl
        have "y = (Inl (Error (''[ERROR]: '' @ render e)), [Invoke], w1)" by simp
        with True \<open>counter_less i retries\<close> fw Inl show ?thesis
          by (subst retry_loop.simps) (simp add: relabel_def set_delay_def)
      next
        case False
        from eq True fw Inl False
        have "Option.bind (rl fn render retries delay (i + 1) w1)
                (\<lambda>(r, evs, w''). Some (r, Invoke # Wait delay # evs, w'')) = Some y"
          by simp
        then obtain r evs2 w' where rec: "rl fn render retries delay (i + 1) w1 = Some (r, evs2, w')"
          and y: "y = (r, Invoke # Wait delay # evs2, w')"
          by (auto simp: bind_eq_Some_conv)
        from hyp [OF rec]
        have "retry_loop fn render retries d (i + 1) w1 = Some (relabel d (r, evs2, w'))"
          by (simp add: delay_free_def)
        with True fw Inl False y show ?thesis
          by (subst retry_loop.simps) (simp add: relabel_def set_delay_def)
      qed
    qed
  qed
qed

lemma retry_loop_delay_Some:
  assumes "retry_loop fn render retries delay i w = Some y"
  shows "retry_loop fn render retries d i w = Some (relabel d y)"
proof -
  have "delay_free fn render retries delay i w y"
    by (rule retry_loop.raw_induct [where P = delay_free, OF _ assms])
      (rule retry_loop_delay_step)
  then show ?thesis by (simp add: delay_free_def)
qed

lemma retry_loop_delay:
  "retry_loop fn render retries d i w =
     map_option (relabel d) (retry_loop fn render retries delay i w)"
proof (cases "retry_loop fn render retries delay i w")
  case (Some y)
  from retry_loop_delay_Some [OF Some, of d] Some show ?thesis by simp
next
  case None
  show ?thesis
  proof (cases "retry_loop fn render retries d i w")
    case (Some y)
    then have "retry_loop fn render retries delay i w = Some (relabel delay y)"
      by (rule retry_loop_delay_Some)
    with None show ?thesis by simp
  next
    case None
    with \<open>retry_loop fn render retries delay i w = None\<close> show ?thesis by simp
  qed
qed

lemma count_set_delay: "count_list (map (set_delay d) evs) Invoke = count_list evs Invoke"
proof (induction evs)
  case Nil
  then show ?case by simp
next
  case (Cons ev evs)
  then show ?case by (cases ev) (simp_all add: set_delay_def)
qed

lemma set_delay_range: "set (map (set_delay d) evs) \<subseteq> {Invoke, Wait d}"
  by (auto simp: set_delay_def split: event.splits)

lemma outcome_mock_rejected: "isl (outcome_at (mock_rejected msg) j n)"
  by (simp add: outcome_at_def mock_rejected_def)

lemma floor_five_halves: "\<lfloor>5 / 2 :: rat\<rfloor> = 2"
  by (rule floor_unique) simp_all

lemma run_three_halves:
  "retry (mock_rejected ''Erro Fatal'') render_Error (Num (3 / 2)) 10 0 =
     Some (Inl (Error ''Falha inesperada no retry''), [Invoke, Wait 10, Invoke, Wait 10], 2)"
  by (simp add: retry_def retry_loop.simps mock_rejected_def)

text \<open>
  Claim C3. For every \<open>N \<ge> 1\<close>: when the operation fails on each of the attempts
  \<open>1..N\<close>, \<open>retry\<close> with \<open>retries = N\<close> returns, having called it exactly \<open>N\<close>
  times, and throws an error whose message is \<open>[ERROR]: \<close> followed by the rendering of
  the error of call number \<open>N\<close>.
\<close>

theorem retry_exhausted:
  assumes "1 \<le> N" and "\<forall>j<N. isl (outcome_at fn j w)" and "outcome_at fn (N - 1) w = Inl e"
  shows "case retry fn render (Num (of_nat N)) delay w of
           None \<Rightarrow> False
         | Some (r, evs, w') \<Rightarrow> r = Inl (Error (''[ERROR]: '' @ render e)) \<and>
                           count_list evs Invoke = N \<and> w' = world_after fn N w"
proof -
  from assms(1) obtain m where m: "N = Suc m" by (cases N) auto
  have a: "counter_is_last (0 + m) (Num (of_nat N))" using m by simp
  have b: "\<forall>j\<le>m. isl (outcome_at fn j w)" using assms(2) m by auto
  from retry_loop_exhausted [OF a b, of render delay] assms(3) m show ?thesis
    by (simp add: retry_def count_attempts_trace del: attempts_trace.simps)
qed

theorem retry_exhausted_witness:
  "map_option fst (retry (mock_rejected ''Erro Fatal'') render_Error (Num 3) 10 0) =
     Some (Inl (Error ''[ERROR]: Error: Erro Fatal'')) \<and>
   map_option (\<lambda>x. count_list (fst (snd x)) Invoke)
     (retry (mock_rejected ''Erro Fatal'') render_Error (Num 3) 10 0) = Some 3"
  using retry_exhausted [of 3 "mock_rejected ''Erro Fatal''" 0 "''Erro Fatal''" render_Error 10]
  by (simp add: outcome_at_def mock_rejected_def render_Error_def split: prod.splits option.splits)

text \<open>
  Claim C4. For every \<open>N \<ge> 1\<close> and \<open>1 \<le> k \<le> N\<close>: when the operation fails on the
  attempts \<open>1..k-1\<close> and succeeds on attempt \<open>k\<close>, \<open>retry\<close> with \<open>retries = N\<close>
  returns that value after exactly \<open>k\<close> calls: the events hold \<open>k\<close> invocations and
  the world is the one left by the \<open>k\<close>-th call.
\<close>

theorem retry_succeeds_at_k:
  assumes "1 \<le> k" and "k \<le> N" and "\<forall>j<k - 1. isl (outcome_at fn j w)"
    and "outcome_at fn (k - 1) w = Inr v"
  shows "case retry fn render (Num (of_nat N)) delay w of
           None \<Rightarrow> False
         | Some (r, evs, w') \<Rightarrow>
             r = Inr v \<and> count_list evs Invoke = k \<and> w' = world_after fn k w"
proof -
  from assms(1) obtain m where m: "k = Suc m" by (cases k) auto
  have a: "counter_less (0 + m) (Num (of_nat N))" using m assms(2) by simp
  have b: "\<forall>j<m. isl (outcome_at fn j w)" using assms(3) m by simp
  have c: "outcome_at fn m w = Inr v" using assms(4) m by simp
  from retry_loop_success [OF a b c, of render delay] m show ?thesis
    by (simp add: retry_def count_attempts_trace del: attempts_trace.simps)
qed

theorem retry_succeeds_at_k_witness:
  "map_option fst (retry (mock_rejected_once ''Falha 1'' ''Sucesso na 2'') render_Error (Num 3) 10 0) =
     Some (Inr ''Sucesso na 2'') \<and>
   map_option (\<lambda>x. count_list (fst (snd x)) Invoke)
     (retry (mock_rejected_once ''Falha 1'' ''Sucesso na 2'') render_Error (Num 3) 10 0) = Some 2"
  using retry_succeeds_at_k [of 2 3 "mock_rejected_once ''Falha 1'' ''Sucesso na 2''" 0
      "''Sucesso na 2''" render_Error 10]
  by (simp add: outcome_at_def mock_rejected_once_def numeral_2_eq_2
      split: prod.splits option.splits)

text \<open>
  Claim C7, as stated, fails: \<open>retries\<close> is a \<open>number\<close>, and with \<open>retries = 2.5\<close>,
  which is at least \<open>1\<close>, and an operation that always fails, the test
  \<open>i === retries - 1\<close> never holds; the loop makes three attempts, waits after each of
  them and ends in the error of the line after the loop.
\<close>

theorem retry_mock_rejected_fractional:
  "retry (mock_rejected ''Erro Fatal'') render_Error (Num (5 / 2)) 10 0 =
     Some (Inl (Error ''Falha inesperada no retry''),
           [Invoke, Wait 10, Invoke, Wait 10, Invoke, Wait 10], 3) \<and>
   (1 :: rat) \<le> 5 / 2"
  by (simp add: retry_def retry_loop.simps mock_rejected_def)

text \<open>
  Claim C7, amended. \<open>retry\<close> throws the error of the line after its loop,
  \<open>Falha inesperada no retry\<close>, exactly when \<open>retries\<close> is none of the numbers
  \<open>1, 2, 3, ...\<close> and not \<open>Infinity\<close>, and every attempt the loop test allows fails.
  When \<open>retries \<le> 0\<close>, or \<open>retries\<close> is \<open>NaN\<close> or \<open>-Infinity\<close>, the loop test
  allows no attempt: the error is thrown at once, the operation is not called, nothing is
  waited for and the world is as it was. For every whole \<open>retries \<ge> 1\<close> this error is
  unreachable: the call returns a value, or it throws the wrapped error of the last of
  its \<open>retries\<close> attempts.
\<close>

theorem retry_fall_through_iff:
  "((\<exists>evs w'. retry fn render retries delay w =
               Some (Inl (Error ''Falha inesperada no retry''), evs, w')) \<longleftrightarrow>
      retries \<noteq> PosInfinity \<and> \<not> positive_integer retries \<and>
      (\<forall>j. counter_less j retries \<longrightarrow> isl (outcome_at fn j w))) \<and>
   (retries = NaN \<or> retries = NegInfinity \<or> (\<exists>q\<le>0. retries = Num q) \<longrightarrow>
      retry fn render retries delay w = Some (Inl (Error ''Falha inesperada no retry''), [], w)) \<and>
   (\<forall>N\<ge>1. retries = Num (of_nat N) \<longrightarrow>
      (\<exists>v evs w'. retry fn render retries delay w = Some (Inr v, evs, w')) \<or>
      (\<exists>e evs w'. outcome_at fn (N - 1) w = Inl e \<and> count_list evs Invoke = N \<and>
         retry fn render retries delay w =
           Some (Inl (Error (''[ERROR]: '' @ render e)), evs, w')))"
proof (intro conjI)
  show "(\<exists>evs w'. retry fn render retries delay w =
               Some (Inl (Error ''Falha inesperada no retry''), evs, w')) \<longleftrightarrow>
      retries \<noteq> PosInfinity \<and> \<not> positive_integer retries \<and>
      (\<forall>j. counter_less j retries \<longrightarrow> isl (outcome_at fn j w))"
  proof
    assume "\<exists>evs w'. retry fn render retries delay w =
               Some (Inl (Error ''Falha inesperada no retry''), evs, w')"
    then obtain evs w' where run: "retry_loop fn render retries delay 0 w =
               Some (Inl (Error ''Falha inesperada no retry''), evs, w')"
      by (auto simp: retry_def)
    from retry_loop_shape [OF run] obtain k where
      "ends_with_value fn retries delay 0 w k (Inl (Error ''Falha inesperada no retry'')) evs \<or>
       ends_with_wrapped fn render retries delay 0 w k (Inl (Error ''Falha inesperada no retry'')) evs \<or>
       falls_through fn retries delay 0 w k (Inl (Error ''Falha inesperada no retry'')) evs"
      by blast
    then have ft: "falls_through fn retries delay 0 w k (Inl (Error ''Falha inesperada no retry'')) evs"
      by (auto simp: ends_with_value_def ends_with_wrapped_def)
    then have stop: "\<not> counter_less k retries"
      and before: "\<forall>j<k. counter_less j retries \<and> \<not> counter_is_last j retries \<and>
                          isl (outcome_at fn j w)"
      by (simp_all add: falls_through_def)
    have below: "j < k" if "counter_less j retries" for j
    proof (rule ccontr)
      assume "\<not> j < k"
      then have "k \<le> j" by simp
      with that have "counter_less k retries" by (rule counter_less_mono)
      with stop show False ..
    qed
    have a: "retries \<noteq> PosInfinity" using stop by auto
    have b: "\<not> positive_integer retries"
    proof
      assume "positive_integer retries"
      then obtain j where j: "counter_is_last j retries" by (auto simp: positive_integer_last)
      then have "counter_less j retries" by (rule last_is_less)
      then have "j < k" by (rule below)
      with before j show False by blast
    qed
    have c: "\<forall>j. counter_less j retries \<longrightarrow> isl (outcome_at fn j w)"
      using below before by blast
    from a b c show "retries \<noteq> PosInfinity \<and> \<not> positive_integer retries \<and>
      (\<forall>j. counter_less j retries \<longrightarrow> isl (outcome_at fn j w))" by blast
  next
    assume h: "retries \<noteq> PosInfinity \<and> \<not> positive_integer retries \<and>
      (\<forall>j. counter_less j retries \<longrightarrow> isl (outcome_at fn j w))"
    then obtain n where n: "\<not> counter_less n retries" "\<forall>j<n. counter_less j retries"
      using stops_somewhere by blast
    from h have nl: "\<not> counter_is_last j retries" for j by (auto simp: positive_integer_last)
    have "\<forall>j<n. counter_less (0 + j) retries \<and> \<not> counter_is_last (0 + j) retries \<and>
                 isl (outcome_at fn j w)"
      using n(2) nl h by simp
    moreover have "\<not> counter_less (0 + n) retries" using n(1) by simp
    ultimately have "retry_loop fn render retries delay 0 w =
       Some (Inl (Error ''Falha inesperada no retry''), attempts_each_waited n delay,
             world_after fn n w)"
      by (rule retry_loop_fall_through)
    then show "\<exists>evs w'. retry fn render retries delay w =
               Some (Inl (Error ''Falha inesperada no retry''), evs, w')"
      by (simp add: retry_def)
  qed
next
  show "retries = NaN \<or> retries = NegInfinity \<or> (\<exists>q\<le>0. retries = Num q) \<longrightarrow>
      retry fn render retries delay w = Some (Inl (Error ''Falha inesperada no retry''), [], w)"
  proof
    assume "retries = NaN \<or> retries = NegInfinity \<or> (\<exists>q\<le>0. retries = Num q)"
    then have "\<not> counter_less 0 retries" by auto
    then show "retry fn render retries delay w =
        Some (Inl (Error ''Falha inesperada no retry''), [], w)"
      unfolding retry_def by (subst retry_loop.simps) simp
  qed
next
  show "\<forall>N\<ge>1. retries = Num (of_nat N) \<longrightarrow>
      (\<exists>v evs w'. retry fn render retries delay w = Some (Inr v, evs, w')) \<or>
      (\<exists>e evs w'. outcome_at fn (N - 1) w = Inl e \<and> count_list evs Invoke = N \<and>
         retry fn render retries delay w =
           Some (Inl (Error (''[ERROR]: '' @ render e)), evs, w'))"
  proof (intro allI impI)
    fix N :: nat
    assume N: "1 \<le> N" and r: "retries = Num (of_nat N)"
    then obtain m where m: "N = Suc m" by (cases N) auto
    show "(\<exists>v evs w'. retry fn render retries delay w = Some (Inr v, evs, w')) \<or>
      (\<exists>e evs w'. outcome_at fn (N - 1) w = Inl e \<and> count_list evs Invoke = N \<and>
         retry fn render retries delay w =
           Some (Inl (Error (''[ERROR]: '' @ render e)), evs, w'))"
    proof (cases "\<forall>j<N. isl (outcome_at fn j w)")
      case True
      have a: "counter_is_last (0 + m) retries" using m r by simp
      have b: "\<forall>j\<le>m. isl (outcome_at fn j w)" using True m by auto
      from b obtain e where e: "outcome_at fn m w = Inl e"
        by (cases "outcome_at fn m w") auto
      from retry_loop_exhausted [OF a b, of render delay] e m
      have "outcome_at fn (N - 1) w = Inl e \<and>
            count_list (attempts_trace N delay) Invoke = N \<and>
            retry fn render retries delay w =
              Some (Inl (Error (''[ERROR]: '' @ render e)), attempts_trace N delay,
                    world_after fn N w)"
        by (simp add: retry_def count_attempts_trace del: attempts_trace.simps)
      then show ?thesis by blast
    next
      case False
      then obtain k v where k: "k < N" "\<forall>j<k. isl (outcome_at fn j w)"
        "outcome_at fn k w = Inr v"
        by (rule first_success)
      have a: "counter_less (0 + k) retries" using k(1) r by simp
      from retry_loop_success [OF a k(2,3), of render delay]
      show ?thesis by (auto simp: retry_def)
    qed
  qed
qed

theorem retry_fall_through_iff_witness:
  "(\<exists>evs w'. retry (mock_rejected ''Erro Fatal'') render_Error (Num (5 / 2)) 10 0 =
               Some (Inl (Error ''Falha inesperada no retry''), evs, w')) \<and>
   retry (mock_rejected ''Erro Fatal'') render_Error (Num 0) 10 0 =
     Some (Inl (Error ''Falha inesperada no retry''), [], 0) \<and>
   retry (mock_rejected ''Erro Fatal'') render_Error NaN 10 0 =
     Some (Inl (Error ''Falha inesperada no retry''), [], 0) \<and>
   ((\<exists>v evs w'. retry (mock_rejected ''Erro Fatal'') render_Error (Num 3) 10 0 =
        Some (Inr v, evs, w')) \<or>
    (\<exists>evs w'. count_list evs Invoke = 3 \<and>
        retry (mock_rejected ''Erro Fatal'') render_Error (Num 3) 10 0 =
          Some (Inl (Error ''[ERROR]: Error: Erro Fatal''), evs, w')))"
proof -
  have a: "Num (5 / 2) \<noteq> PosInfinity \<and> \<not> positive_integer (Num (5 / 2)) \<and>
      (\<forall>j. counter_less j (Num (5 / 2)) \<longrightarrow> isl (outcome_at (mock_rejected ''Erro Fatal'') j 0))"
    by (simp add: outcome_mock_rejected floor_five_halves)
  have b: "(1::nat) \<le> 3 \<and> Num 3 = Num (of_nat 3)" by simp
  from a retry_fall_through_iff [of "mock_rejected ''Erro Fatal''" render_Error "Num (5 / 2)" 10 0]
  have one: "\<exists>evs w'. retry (mock_rejected ''Erro Fatal'') render_Error (Num (5 / 2)) 10 0 =
               Some (Inl (Error ''Falha inesperada no retry''), evs, w')"
    by blast
  from retry_fall_through_iff [of "mock_rejected ''Erro Fatal''" render_Error "Num 0" 10 0]
  have two: "retry (mock_rejected ''Erro Fatal'') render_Error (Num 0) 10 0 =
     Some (Inl (Error ''Falha inesperada no retry''), [], 0)"
    by simp
  from retry_fall_through_iff [of "mock_rejected ''Erro Fatal''" render_Error NaN 10 0]
  have three: "retry (mock_rejected ''Erro Fatal'') render_Error NaN 10 0 =
     Some (Inl (Error ''Falha inesperada no retry''), [], 0)"
    by simp
  from b retry_fall_through_iff [of "mock_rejected ''Erro Fatal''" render_Error "Num 3" 10 0]
  have "(\<exists>v evs w'. retry (mock_rejected ''Erro Fatal'') render_Error (Num 3) 10 0 =
        Some (Inr v, evs, w')) \<or>
    (\<exists>e evs w'. outcome_at (mock_rejected ''Erro Fatal'') (3 - 1) 0 = Inl e \<and>
        count_list evs Invoke = 3 \<and>
        retry (mock_rejected ''Erro Fatal'') render_Error (Num 3) 10 0 =
          Some (Inl (Error (''[ERROR]: '' @ render_Error e)), evs, w'))"
    by blast
  then have four: "(\<exists>v evs w'. retry (mock_rejected ''Erro Fatal'') render_Error (Num 3) 10 0 =
        Some (Inr v, evs, w')) \<or>
    (\<exists>evs w'. count_list evs Invoke = 3 \<and>
        retry (mock_rejected ''Erro Fatal'') render_Error (Num 3) 10 0 =
          Some (Inl (Error ''[ERROR]: Error: Erro Fatal''), evs, w'))"
    by (auto simp: outcome_at_def mock_rejected_def render_Error_def)
  from one two three four show ?thesis by blast
qed

text \<open>
  Claim C8, as stated, fails: with \<open>retries = 1.5\<close> and an operation that always fails
  the loop makes two attempts and waits after the second, the final one, before it throws.
\<close>

theorem retry_waits_after_final_attempt:
  "retry (mock_rejected ''Erro Fatal'') render_Error (Num (3 / 2)) 10 0 =
     Some (Inl (Error ''Falha inesperada no retry''), [Invoke, Wait 10, Invoke, Wait 10], 2) \<and>
   last [Invoke, Wait 10, Invoke, Wait (10::int)] = Wait 10"
  by (simp add: run_three_halves)

text \<open>
  Claim C8, amended. In every run that returns, the events alternate: an invocation at
  each even position and a wait of the configured delay at each odd one, so that each two
  consecutive attempts have exactly one wait between them, and every attempt before the
  final one failed. Nothing follows the final attempt when it succeeds or when
  \<open>retries\<close> is a whole number; a run whose events end with an attempt ended with a
  success or had a whole \<open>retries \<ge> 1\<close>. One more wait of the delay follows the final
  attempt exactly when the run ends in the error of the line after the loop having made
  an attempt; then \<open>retries\<close> is positive and not whole, the number of attempts is
  \<open>retries\<close> rounded up, and the final attempt failed.
\<close>

theorem retry_waits_between_attempts:
  assumes "retry fn render retries delay w = Some (r, evs, w')"
  shows "\<exists>k. count_list evs Invoke = k \<and> w' = world_after fn k w \<and>
             (\<forall>j. Suc j < k \<longrightarrow> isl (outcome_at fn j w)) \<and>
             (\<forall>n<length evs. evs ! n = (if even n then Invoke else Wait delay)) \<and>
             (if 0 < k \<and> r = Inl (Error ''Falha inesperada no retry'')
              then length evs = 2 * k \<and> last evs = Wait delay \<and>
                   isl (outcome_at fn (k - 1) w) \<and>
                   (\<exists>q. retries = Num q \<and> 0 < q \<and> of_int \<lfloor>q\<rfloor> \<noteq> q \<and> k = nat \<lceil>q\<rceil>)
              else length evs = 2 * k - 1 \<and> (evs \<noteq> [] \<longrightarrow> last evs = Invoke) \<and>
                   (0 < k \<longrightarrow> \<not> isl (outcome_at fn (k - 1) w) \<or> positive_integer retries))"
proof -
  from assms have run: "retry_loop fn render retries delay 0 w = Some (r, evs, w')"
    by (simp add: retry_def)
  from retry_loop_shape [OF run] obtain k where w': "w' = world_after fn k w"
    and shape: "ends_with_value fn retries delay 0 w k r evs \<or>
                ends_with_wrapped fn render retries delay 0 w k r evs \<or>
                falls_through fn retries delay 0 w k r evs"
    by blast
  from shape consider
      (returned) "ends_with_value fn retries delay 0 w k r evs"
    | (wrapped) "ends_with_wrapped fn render retries delay 0 w k r evs"
    | (fall) "falls_through fn retries delay 0 w k r evs"
    by blast
  then show ?thesis
  proof cases
    case returned
    then have k: "0 < k" and evs: "evs = attempts_trace k delay"
      and r: "r \<noteq> Inl (Error ''Falha inesperada no retry'')"
      and f: "\<forall>j. Suc j < k \<longrightarrow> isl (outcome_at fn j w)"
      and fin: "\<not> isl (outcome_at fn (k - 1) w)"
      by (auto simp: ends_with_value_def)
    from k evs r f fin w' show ?thesis
      by (intro exI [of _ k])
        (simp add: count_attempts_trace alternating_attempts_trace length_attempts_trace
          last_attempts_trace del: attempts_trace.simps)
  next
    case wrapped
    then have k: "0 < k" and evs: "evs = attempts_trace k delay"
      and r: "r \<noteq> Inl (Error ''Falha inesperada no retry'')"
      and f: "\<forall>j. Suc j < k \<longrightarrow> isl (outcome_at fn j w)"
      by (auto simp: ends_with_wrapped_def)
    from wrapped have "counter_is_last (k - 1) retries" by (simp add: ends_with_wrapped_def)
    then have fin: "positive_integer retries" by (auto simp: positive_integer_last)
    from k evs r f fin w' show ?thesis
      by (intro exI [of _ k])
        (simp add: count_attempts_trace alternating_attempts_trace length_attempts_trace
          last_attempts_trace del: attempts_trace.simps)
  next
    case fall
    then have evs: "evs = attempts_each_waited k delay"
      and r: "r = Inl (Error ''Falha inesperada no retry'')"
      and before: "\<forall>j<k. counter_less j retries \<and> \<not> counter_is_last j retries \<and>
                          isl (outcome_at fn j w)"
      and stop: "\<not> counter_less k retries"
      by (simp_all add: falls_through_def)
    show ?thesis
    proof (cases k)
      case 0
      with evs r w' show ?thesis
        by (intro exI [of _ 0]) (simp add: attempts_each_waited_0)
    next
      case (Suc k')
      from before Suc have c0: "counter_less k' retries" "\<not> counter_is_last k' retries"
        "isl (outcome_at fn k' w)"
        by simp_all
      from c0(1) stop obtain q where q: "retries = Num q" by (cases retries) auto
      from c0(1) q have lo: "of_nat k' < q" by simp
      from stop q Suc have hi: "q \<le> of_nat k' + 1" by simp
      from c0(2) q have ne: "q \<noteq> of_nat k' + 1" by auto
      from hi ne have hi': "q < of_nat k' + 1" by simp
      have pos: "0 < q" using lo by (rule le_less_trans [rotated]) simp
      have fl: "\<lfloor>q\<rfloor> = int k'"
        using lo hi' by (intro floor_unique) simp_all
      have ce: "\<lceil>q\<rceil> = int k' + 1"
        using lo hi' by (intro ceiling_unique) simp_all
      have nonint: "of_int \<lfloor>q\<rfloor> \<noteq> q" using fl lo by simp
      have kq: "k = nat \<lceil>q\<rceil>" using ce Suc by simp
      have l: "last evs = Wait delay"
        using evs Suc attempts_each_waited_eq [of k delay] by simp
      from evs r w' before Suc c0(3) q pos nonint kq l show ?thesis
        by (intro exI [of _ k])
          (simp add: count_attempts_each_waited alternating_attempts_each_waited
            length_attempts_each_waited)
    qed
  qed
qed

theorem retry_waits_between_attempts_witness:
  "\<exists>k. count_list [Invoke, Wait 10, Invoke, Wait 10] Invoke = k \<and>
       (2::nat) = world_after (mock_rejected ''Erro Fatal'') k 0 \<and>
       (\<forall>j. Suc j < k \<longrightarrow> isl (outcome_at (mock_rejected ''Erro Fatal'') j 0)) \<and>
       (\<forall>n<length [Invoke, Wait 10, Invoke, Wait 10].
           [Invoke, Wait 10, Invoke, Wait 10] ! n = (if even n then Invoke else Wait 10)) \<and>
       (if 0 < k \<and> (Inl (Error ''Falha inesperada no retry'') :: js_error + string) =
                     Inl (Error ''Falha inesperada no retry'')
        then length [Invoke, Wait 10, Invoke, Wait 10] = 2 * k \<and>
             last [Invoke, Wait 10, Invoke, Wait 10] = Wait 10 \<and>
             isl (outcome_at (mock_rejected ''Erro Fatal'') (k - 1) 0) \<and>
             (\<exists>q. Num (3 / 2) = Num q \<and> 0 < q \<and> of_int \<lfloor>q\<rfloor> \<noteq> q \<and> k = nat \<lceil>q\<rceil>)
        else length [Invoke, Wait 10, Invoke, Wait 10] = 2 * k - 1 \<and>
             ([Invoke, Wait 10, Invoke, Wait 10] \<noteq> [] \<longrightarrow>
                last [Invoke, Wait 10, Invoke, Wait 10] = Invoke) \<and>
             (0 < k \<longrightarrow> \<not> isl (outcome_at (mock_rejected ''Erro Fatal'') (k - 1) 0) \<or>
                positive_integer (Num (3 / 2))))"
  using retry_waits_between_attempts [OF run_three_halves] .

section \<open>Properties of the cache key\<close>

lemma chaveCache_eq_iff:
  "chaveCache key args = chaveCache key args' \<longleftrightarrow>
   JSON_stringify (JArr args) = JSON_stringify (JArr args')"
  by (simp add: chaveCache_def)

lemma list_all2_deep_same:
  assumes "\<And>x y. x \<in> set xs \<Longrightarrow> deep_equal x y \<Longrightarrow> same_field_order x y \<Longrightarrow> x = y"
    and "list_all2 deep_equal xs ys" and "list_all2 same_field_order xs ys"
  shows "xs = ys"
  using assms(2,3,1)
proof (induction xs ys rule: list_all2_induct)
  case Nil
  then show ?case by simp
next
  case (Cons x xs y ys)
  then show ?case by auto
qed

lemma deep_equal_same_order_eq:
  "deep_equal a b \<Longrightarrow> same_field_order a b \<Longrightarrow> a = b"
proof (induction a arbitrary: b)
  case JNull
  then show ?case by (cases b) auto
next
  case (JBool x)
  then show ?case by (cases b) auto
next
  case (JNum x)
  then show ?case by (cases b) auto
next
  case (JStr x)
  then show ?case by (cases b) auto
next
  case (JArr xs)
  from JArr.prems obtain ys where b: "b = JArr ys" by (cases b) auto
  with JArr.prems have "list_all2 deep_equal xs ys" "list_all2 same_field_order xs ys" by auto
  with JArr.IH have "xs = ys" by (intro list_all2_deep_same) auto
  with b show ?case by simp
next
  case (JObj fs)
  from JObj.prems obtain gs where b: "b = JObj gs" by (cases b) auto
  with JObj.prems have keys: "map fst fs = map fst gs"
    and ord: "list_all2 same_field_order (map snd fs) (map snd gs)"
    and deep: "\<forall>(k, v) \<in> set fs. \<forall>(k', v') \<in> set gs. k = k' \<longrightarrow> deep_equal v v'"
    by auto
  from keys have len: "length fs = length gs" by (metis length_map)
  have "fs ! n = gs ! n" if n: "n < length fs" for n
  proof -
    obtain k v where f: "fs ! n = (k, v)" by (cases "fs ! n")
    obtain k' v' where g: "gs ! n = (k', v')" by (cases "gs ! n")
    from keys n len have "fst (fs ! n) = fst (gs ! n)"
      by (metis nth_map)
    with f g have kk: "k = k'" by simp
    from n f have fin: "(k, v) \<in> set fs" by (metis nth_mem)
    from n len g have gin: "(k', v') \<in> set gs" by (metis nth_mem)
    from deep fin gin kk have d: "deep_equal v v'" by blast
    from ord n len have "same_field_order (map snd fs ! n) (map snd gs ! n)"
      by (simp add: list_all2_conv_all_nth)
    with n len f g have o: "same_field_order v v'" by simp
    from fin have "v \<in> Basic_BNFs.snds (k, v)" "(k, v) \<in> set fs" by auto
    from JObj.IH [OF this(2,1) d o] have "v = v'" .
    with kk f g show ?thesis by simp
  qed
  with len have "fs = gs" by (simp add: list_eq_iff_nth_eq)
  with b show ?case by simp
qed

lemma same_field_order_refl: "same_field_order a a"
proof (induction a)
  case (JArr xs)
  then show ?case by (simp add: list_all2_same)
next
  case (JObj fs)
  have "list_all2 same_field_order (map snd fs) (map snd fs)"
    unfolding list_all2_same
  proof
    fix v assume "v \<in> set (map snd fs)"
    then obtain k where kv: "(k, v) \<in> set fs" by auto
    then have "v \<in> Basic_BNFs.snds (k, v)" by simp
    with kv JObj.IH show "same_field_order v v" by blast
  qed
  then show ?case by simp
qed simp_all

lemma hex_digit_inj:
  "i < 16 \<Longrightarrow> j < 16 \<Longrightarrow> ''0123456789abcdef'' ! i = ''0123456789abcdef'' ! j \<Longrightarrow> i = j"
proof -
  have d: "distinct ''0123456789abcdef''" by simp
  have l: "length ''0123456789abcdef'' = 16" by simp
  show "i < 16 \<Longrightarrow> j < 16 \<Longrightarrow> ''0123456789abcdef'' ! i = ''0123456789abcdef'' ! j \<Longrightarrow> i = j"
    using nth_eq_iff_index_eq [OF d, of i j] l by simp
qed

lemma hex_pair_inj:
  assumes "(of_char c :: nat) < 0x20" "(of_char c' :: nat) < 0x20"
    and "''0123456789abcdef'' ! (of_char c div 16) = ''0123456789abcdef'' ! (of_char c' div 16)"
    and "''0123456789abcdef'' ! (of_char c mod 16) = ''0123456789abcdef'' ! (of_char c' mod 16)"
  shows "c = c'"
proof -
  let ?n = "of_char c :: nat" and ?n' = "of_char c' :: nat"
  have "?n div 16 < 16" "?n' div 16 < 16" using assms(1,2) by simp_all
  with assms(3) have a: "?n div 16 = ?n' div 16" by (rule hex_digit_inj [rotated 2])
  have "?n mod 16 < 16" "?n' mod 16 < 16" by simp_all
  with assms(4) have b: "?n mod 16 = ?n' mod 16" by (rule hex_digit_inj [rotated 2])
  from a b have "?n = ?n'" by (metis div_mult_mod_eq)
  then show ?thesis by simp
qed

lemma escape_char_short:
  "escape_char (CHR 0x08) = [CHR 0x5C, CHR ''b'']"
  "escape_char (CHR 0x09) = [CHR 0x5C, CHR ''t'']"
  "escape_char (CHR 0x0A) = [CHR 0x5C, CHR ''n'']"
  "escape_char (CHR 0x0C) = [CHR 0x5C, CHR ''f'']"
  "escape_char (CHR 0x0D) = [CHR 0x5C, CHR ''r'']"
  "escape_char (CHR 0x22) = [CHR 0x5C, CHR 0x22]"
  "escape_char (CHR 0x5C) = [CHR 0x5C, CHR 0x5C]"
  by (simp_all add: escape_char_def)

lemma escape_char_long:
  "c \<notin> escaped_short \<Longrightarrow> (of_char c :: nat) < 0x20 \<Longrightarrow>
   escape_char c = [CHR 0x5C, CHR ''u'', CHR ''0'', CHR ''0'',
         ''0123456789abcdef'' ! (of_char c div 16), ''0123456789abcdef'' ! (of_char c mod 16)]"
  by (simp add: escape_char_def escaped_short_def)

lemma escape_char_plain:
  "c \<notin> escaped_short \<Longrightarrow> \<not> (of_char c :: nat) < 0x20 \<Longrightarrow> escape_char c = [c]"
  by (simp add: escape_char_def escaped_short_def)

lemma escape_char_short_form:
  "c \<in> escaped_short \<Longrightarrow>
   \<exists>t. escape_char c = [CHR 0x5C, t] \<and> t \<noteq> CHR ''u''"
  by (auto simp: escaped_short_def escape_char_short)

lemma escape_char_short_inj:
  "c \<in> escaped_short \<Longrightarrow> c' \<in> escaped_short \<Longrightarrow>
   escape_char c @ r = escape_char c' @ r' \<Longrightarrow> c = c' \<and> r = r'"
  unfolding escaped_short_def by (auto simp: escape_char_short)

lemma escape_char_classes:
  obtains (short) "c \<in> escaped_short"
  | (long) "c \<notin> escaped_short" "(of_char c :: nat) < 0x20"
  | (plain) "c \<notin> escaped_short" "\<not> (of_char c :: nat) < 0x20"
  by blast

lemma escape_char_prefix_free:
  assumes "escape_char c @ r = escape_char c' @ r'"
  shows "c = c' \<and> r = r'"
proof (cases c rule: escape_char_classes)
  case short
  from escape_char_short_form [OF short]
  obtain t where t: "escape_char c = [CHR 0x5C, t]" "t \<noteq> CHR ''u''" by blast
  show ?thesis
  proof (cases c' rule: escape_char_classes)
    case short': short
    from short short' assms show ?thesis by (rule escape_char_short_inj)
  next
    case long
    with assms t escape_char_long [of c'] show ?thesis by simp
  next
    case plain
    with assms t escape_char_plain [of c'] show ?thesis by (simp add: escaped_short_def)
  qed
next
  case long
  note c = escape_char_long [OF long]
  show ?thesis
  proof (cases c' rule: escape_char_classes)
    case short
    from escape_char_short_form [OF short]
    obtain t where "escape_char c' = [CHR 0x5C, t]" "t \<noteq> CHR ''u''" by blast
    with assms c show ?thesis by auto
  next
    case long': long
    from assms c escape_char_long [OF long']
    have d: "''0123456789abcdef'' ! (of_char c div 16) = ''0123456789abcdef'' ! (of_char c' div 16)"
      and m: "''0123456789abcdef'' ! (of_char c mod 16) = ''0123456789abcdef'' ! (of_char c' mod 16)"
      and rr: "r = r'"
      by simp_all
    from long(2) long'(2) d m have "c = c'" by (rule hex_pair_inj)
    with rr show ?thesis by simp
  next
    case plain
    with assms c escape_char_plain [of c'] show ?thesis by (simp add: escaped_short_def)
  qed
next
  case plain
  note c = escape_char_plain [OF plain]
  show ?thesis
  proof (cases c' rule: escape_char_classes)
    case short
    from escape_char_short_form [OF short]
    obtain t where "escape_char c' = [CHR 0x5C, t]" by blast
    with assms c plain(1) show ?thesis by (simp add: escaped_short_def)
  next
    case long
    with assms c plain(1) escape_char_long [of c'] show ?thesis by (simp add: escaped_short_def)
  next
    case plain': plain
    with assms c escape_char_plain [of c'] show ?thesis by simp
  qed
qed

lemma escape_char_not_quote: "escape_char c @ r \<noteq> CHR 0x22 # r'"
proof (cases c rule: escape_char_classes)
  case short
  from escape_char_short_form [OF short] show ?thesis by auto
next
  case long
  then show ?thesis by (simp add: escape_char_long)
next
  case plain
  then show ?thesis by (simp add: escape_char_plain escaped_short_def)
qed

lemma quote_body_prefix_free:
  "concat (map escape_char k) @ CHR 0x22 # r = concat (map escape_char k') @ CHR 0x22 # r' \<Longrightarrow>
   k = k' \<and> r = r'"
proof (induction k arbitrary: k')
  case Nil
  show ?case
  proof (cases k')
    case Nil
    with Nil.prems show ?thesis by simp
  next
    case (Cons c cs)
    with Nil.prems have "escape_char c @ (concat (map escape_char cs) @ CHR 0x22 # r') = CHR 0x22 # r"
      by simp
    then show ?thesis using escape_char_not_quote by blast
  qed
next
  case (Cons c cs)
  show ?case
  proof (cases k')
    case Nil
    with Cons.prems have "escape_char c @ (concat (map escape_char cs) @ CHR 0x22 # r) = CHR 0x22 # r'"
      by simp
    then show ?thesis using escape_char_not_quote by blast
  next
    case (Cons c' cs')
    with Cons.prems
    have "escape_char c @ (concat (map escape_char cs) @ CHR 0x22 # r) =
          escape_char c' @ (concat (map escape_char cs') @ CHR 0x22 # r')"
      by simp
    then have "c = c'" and "concat (map escape_char cs) @ CHR 0x22 # r =
         concat (map escape_char cs') @ CHR 0x22 # r'"
      using escape_char_prefix_free by blast+
    with Cons.IH [of cs'] \<open>k' = c' # cs'\<close> show ?thesis by simp
  qed
qed

lemma QuoteJSONString_prefix_free:
  "QuoteJSONString k @ r = QuoteJSONString k' @ r' \<Longrightarrow> k = k' \<and> r = r'"
  using quote_body_prefix_free [of k r k' r'] by (simp add: QuoteJSONString_def)

lemma join_Cons: "join sep (x # xs) = x @ (if xs = [] then [] else sep @ join sep xs)"
  by (cases xs) simp_all

lemma join_array_inj:
  assumes "list_all2 deep_equal xs ys"
    and "join '','' (map JSON_stringify xs) @ CHR '']'' # r =
         join '','' (map JSON_stringify ys) @ CHR '']'' # r'"
    and "\<And>x y r r'. x \<in> set xs \<Longrightarrow> deep_equal x y \<Longrightarrow>
           JSON_stringify x @ r = JSON_stringify y @ r' \<Longrightarrow> x = y \<and> r = r'"
  shows "xs = ys \<and> r = r'"
  using assms
proof (induction xs ys rule: list_all2_induct)
  case Nil
  then show ?case by simp
next
  case (Cons x xs y ys)
  from Cons.hyps(2) have len: "xs = [] \<longleftrightarrow> ys = []" by (auto dest: list_all2_lengthD)
  let ?tx = "(if xs = [] then [] else '','' @ join '','' (map JSON_stringify xs)) @ CHR '']'' # r"
  let ?ty = "(if ys = [] then [] else '','' @ join '','' (map JSON_stringify ys)) @ CHR '']'' # r'"
  from Cons.prems(1) have "JSON_stringify x @ ?tx = JSON_stringify y @ ?ty"
    by (simp add: join_Cons)
  with Cons.prems(2) [of x y ?tx ?ty] Cons.hyps(1) have xy: "x = y" and t: "?tx = ?ty"
    by simp_all
  show ?case
  proof (cases "xs = []")
    case True
    with len t xy show ?thesis by simp
  next
    case False
    with len t have eq': "join '','' (map JSON_stringify xs) @ CHR '']'' # r =
         join '','' (map JSON_stringify ys) @ CHR '']'' # r'"
      by simp
    have sub: "\<And>x y r r'. x \<in> set xs \<Longrightarrow> deep_equal x y \<Longrightarrow>
           JSON_stringify x @ r = JSON_stringify y @ r' \<Longrightarrow> x = y \<and> r = r'"
      using Cons.prems(2) by (meson list.set_intros(2))
    from Cons.IH [OF eq' sub] have "xs = ys \<and> r = r'" .
    with xy show ?thesis by simp
  qed
qed

lemma stringify_obj:
  "JSON_stringify (JObj fs) = ''{'' @ join '','' (map member_text fs) @ ''}''"
proof -
  have "(\<lambda>(k, v). QuoteJSONString k @ '':'' @ JSON_stringify v) = member_text"
    by (auto simp: member_text_def fun_eq_iff)
  then show ?thesis by simp
qed

lemma member_text_head: "\<exists>t. member_text kv @ s = CHR 0x22 # t"
  by (simp add: member_text_def QuoteJSONString_def)

lemma join_object_inj:
  assumes "\<forall>(k, v) \<in> set fs. \<forall>(k', v') \<in> set gs. k = k' \<longrightarrow> deep_equal v v'"
    and "join '','' (map member_text fs) @ CHR ''}'' # r =
         join '','' (map member_text gs) @ CHR ''}'' # r'"
    and "\<And>k v y r r'. (k, v) \<in> set fs \<Longrightarrow> deep_equal v y \<Longrightarrow>
           JSON_stringify v @ r = JSON_stringify y @ r' \<Longrightarrow> v = y \<and> r = r'"
  shows "fs = gs \<and> r = r'"
  using assms
proof (induction fs arbitrary: gs)
  case Nil
  show ?case
  proof (cases gs)
    case Nil
    with Nil.prems(2) show ?thesis by simp
  next
    case (Cons g gs')
    obtain t where "member_text g @ ((if gs' = [] then [] else '','' @ join '','' (map member_text gs'))
        @ CHR ''}'' # r') = CHR 0x22 # t"
      using member_text_head by blast
    with Nil.prems(2) Cons show ?thesis by (simp add: join_Cons)
  qed
next
  case (Cons f fs)
  obtain k v where f: "f = (k, v)" by (cases f)
  show ?case
  proof (cases gs)
    case Nil
    obtain t where "member_text f @ ((if fs = [] then [] else '','' @ join '','' (map member_text fs))
        @ CHR ''}'' # r) = CHR 0x22 # t"
      using member_text_head by blast
    with Cons.prems(2) Nil show ?thesis by (simp add: join_Cons)
  next
    case gs: (Cons g gs')
    obtain k' v' where g: "g = (k', v')" by (cases g)
    let ?tf = "(if fs = [] then [] else '','' @ join '','' (map member_text fs)) @ CHR ''}'' # r"
    let ?tg = "(if gs' = [] then [] else '','' @ join '','' (map member_text gs')) @ CHR ''}'' # r'"
    from Cons.prems(2) gs have "member_text f @ ?tf = member_text g @ ?tg"
      by (simp only: list.map join_Cons append_assoc map_is_Nil_conv)
    moreover have "member_text f = QuoteJSONString k @ '':'' @ JSON_stringify v"
      "member_text g = QuoteJSONString k' @ '':'' @ JSON_stringify v'"
      using f g by (simp_all add: member_text_def)
    ultimately
    have "QuoteJSONString k @ ('':'' @ JSON_stringify v @ ?tf) =
          QuoteJSONString k' @ ('':'' @ JSON_stringify v' @ ?tg)"
      by (simp only: append_assoc)
    then have kk: "k = k'" and rest: "'':'' @ JSON_stringify v @ ?tf = '':'' @ JSON_stringify v' @ ?tg"
      using QuoteJSONString_prefix_free by blast+
    from rest have rest': "JSON_stringify v @ ?tf = JSON_stringify v' @ ?tg" by simp
    from Cons.prems(1) f g gs kk have de: "deep_equal v v'" by auto
    from Cons.prems(3) [of k v v' ?tf ?tg] f de rest' have vv: "v = v'" and t: "?tf = ?tg"
      by simp_all
    have fg: "f = g" using f g kk vv by simp
    have sub: "\<forall>(k, v) \<in> set fs. \<forall>(k', v') \<in> set gs'. k = k' \<longrightarrow> deep_equal v v'"
      using Cons.prems(1) gs by auto
    show ?thesis
    proof (cases "fs = []")
      case True
      show ?thesis
      proof (cases "gs' = []")
        case True
        with \<open>fs = []\<close> t fg gs show ?thesis by simp
      next
        case False
        with \<open>fs = []\<close> t show ?thesis by simp
      qed
    next
      case False
      show ?thesis
      proof (cases "gs' = []")
        case True
        with \<open>fs \<noteq> []\<close> t show ?thesis by simp
      next
        case False
        with \<open>fs \<noteq> []\<close> t have eq': "join '','' (map member_text fs) @ CHR ''}'' # r =
            join '','' (map member_text gs') @ CHR ''}'' # r'"
          by simp
        have sub3: "\<And>k v y r r'. (k, v) \<in> set fs \<Longrightarrow> deep_equal v y \<Longrightarrow>
           JSON_stringify v @ r = JSON_stringify y @ r' \<Longrightarrow> v = y \<and> r = r'"
          using Cons.prems(3) by (meson list.set_intros(2))
        from Cons.IH [OF sub eq' sub3] have "fs = gs' \<and> r = r'" .
        with fg gs show ?thesis by simp
      qed
    qed
  qed
qed

lemma stringify_prefix_free:
  "deep_equal a b \<Longrightarrow> JSON_stringify a @ r = JSON_stringify b @ r' \<Longrightarrow> a = b \<and> r = r'"
proof (induction a arbitrary: b r r')
  case JNull
  then show ?case by (cases b) auto
next
  case (JBool x)
  then show ?case by (cases b) auto
next
  case (JNum x)
  then show ?case by (cases b) auto
next
  case (JStr x)
  then show ?case by (cases b) auto
next
  case (JArr xs)
  from JArr.prems(1) obtain ys where b: "b = JArr ys" by (cases b) auto
  with JArr.prems have de: "list_all2 deep_equal xs ys"
    and eq: "join '','' (map JSON_stringify xs) @ CHR '']'' # r =
         join '','' (map JSON_stringify ys) @ CHR '']'' # r'"
    by simp_all
  from de eq JArr.IH have "xs = ys \<and> r = r'" by (rule join_array_inj)
  with b show ?case by simp
next
  case (JObj fs)
  from JObj.prems(1) obtain gs where b: "b = JObj gs" by (cases b) auto
  with JObj.prems have de: "\<forall>(k, v) \<in> set fs. \<forall>(k', v') \<in> set gs. k = k' \<longrightarrow> deep_equal v v'"
    and eq: "join '','' (map member_text fs) @ CHR ''}'' # r =
         join '','' (map member_text gs) @ CHR ''}'' # r'"
    by (simp_all add: stringify_obj del: JSON_stringify.simps)
  have IH: "\<And>k v y r r'. (k, v) \<in> set fs \<Longrightarrow> deep_equal v y \<Longrightarrow>
           JSON_stringify v @ r = JSON_stringify y @ r' \<Longrightarrow> v = y \<and> r = r'"
  proof -
    fix k v y r r'
    assume "(k, v) \<in> set fs" "deep_equal v y" "JSON_stringify v @ r = JSON_stringify y @ r'"
    moreover from this(1) have "v \<in> Basic_BNFs.snds (k, v)" by simp
    ultimately show "v = y \<and> r = r'" using JObj.IH by blast
  qed
  from de eq IH have "fs = gs \<and> r = r'" by (rule join_object_inj)
  with b show ?case by simp
qed

lemma deep_equal_same_text_iff:
  assumes "deep_equal a b"
  shows "JSON_stringify a = JSON_stringify b \<longleftrightarrow> same_field_order a b"
proof
  assume "JSON_stringify a = JSON_stringify b"
  then have "JSON_stringify a @ [] = JSON_stringify b @ []" by simp
  with assms have "a = b" using stringify_prefix_free by blast
  then show "same_field_order a b" by (simp add: same_field_order_refl)
next
  assume "same_field_order a b"
  with assms have "a = b" by (rule deep_equal_same_order_eq)
  then show "JSON_stringify a = JSON_stringify b" by simp
qed

lemma deep_equal_ab_ba: "deep_equal (JArr args_ab) (JArr args_ba)"
  by (auto simp: args_ab_def args_ba_def)

lemma stringify_ab:
  "JSON_stringify (JArr args_ab) =
     [CHR ''['', CHR ''{'', CHR 0x22, CHR ''a'', CHR 0x22, CHR '':'', CHR ''1'', CHR '','',
      CHR 0x22, CHR ''b'', CHR 0x22, CHR '':'', CHR ''2'', CHR ''}'', CHR '']'']"
  by (simp add: args_ab_def QuoteJSONString_def escape_char_def show_int_def show_nat.simps)

lemma stringify_ba:
  "JSON_stringify (JArr args_ba) =
     [CHR ''['', CHR ''{'', CHR 0x22, CHR ''b'', CHR 0x22, CHR '':'', CHR ''2'', CHR '','',
      CHR 0x22, CHR ''a'', CHR 0x22, CHR '':'', CHR ''1'', CHR ''}'', CHR '']'']"
  by (simp add: args_ba_def QuoteJSONString_def escape_char_def show_int_def show_nat.simps)

lemma chave_ab_ba: "chaveCache key args_ab \<noteq> chaveCache key args_ba"
proof -
  have "JSON_stringify (JArr args_ab) \<noteq> JSON_stringify (JArr args_ba)"
    unfolding stringify_ab stringify_ba by simp
  then show ?thesis by (simp only: chaveCache_eq_iff not_False_eq_True)
qed

lemma plain_json_ab_ba: "plain_json (JArr args_ab)" "plain_json (JArr args_ba)"
  by (simp_all add: args_ab_def args_ba_def digits_only_def)

lemma field_order_ab_ba: "\<not> same_field_order (JArr args_ab) (JArr args_ba)"
  by (simp add: args_ab_def args_ba_def)

lemma deep_equal_ab_ab: "deep_equal (JArr args_ab) (JArr args_ab)"
  by (simp add: args_ab_def)

text \<open>
  Claim C2, as stated, fails: the argument lists \<open>[{a: 1, b: 2}]\<close> and
  \<open>[{b: 2, a: 1}]\<close> are deep-equal, and their keys differ, since \<open>JSON.stringify\<close>
  writes the fields in insertion order.
\<close>

theorem deep_equal_different_keys:
  "deep_equal (JArr args_ab) (JArr args_ba) \<and>
   chaveCache ''f'' args_ab \<noteq> chaveCache ''f'' args_ba"
  using deep_equal_ab_ba chave_ab_ba by simp

text \<open>
  Claim C2, amended. For two invocations whose argument structures are deep-equal (plain
  JSON values: \<open>null\<close>, booleans, safe integers, strings, arrays, and objects none of
  whose keys is an array index), the computed cache key is the same if and only if the
  two structures list the fields of their objects in the same insertion order.
\<close>

theorem deep_equal_same_key_iff_same_field_order:
  assumes "plain_json (JArr args)" and "plain_json (JArr args')"
    and "deep_equal (JArr args) (JArr args')"
  shows "chaveCache key args = chaveCache key args' \<longleftrightarrow>
         same_field_order (JArr args) (JArr args')"
  using deep_equal_same_text_iff [OF assms(3)] by (simp only: chaveCache_eq_iff)

theorem deep_equal_same_key_iff_same_field_order_witness:
  "chaveCache ''f'' args_ab = chaveCache ''f'' args_ab \<and>
   same_field_order (JArr args_ab) (JArr args_ab) \<and>
   deep_equal (JArr args_ab) (JArr args_ba) \<and>
   \<not> same_field_order (JArr args_ab) (JArr args_ba) \<and>
   chaveCache ''f'' args_ab \<noteq> chaveCache ''f'' args_ba"
  using
    deep_equal_same_key_iff_same_field_order
      [OF plain_json_ab_ba(1) plain_json_ab_ba(1) deep_equal_ab_ab, of "''f''"]
    deep_equal_same_key_iff_same_field_order
      [OF plain_json_ab_ba(1) plain_json_ab_ba(2) deep_equal_ab_ba, of "''f''"]
    deep_equal_ab_ba field_order_ab_ba
  by simp

section \<open>Properties of Cache\<close>

lemma compute_throws:
  "original this args (world s) = (Inl e, w) \<Longrightarrow>
   compute ttl original this args now chave s =
     (Inl e, s\<lparr>world := w, applied := applied s @ [(this, args)]\<rparr>)"
  by (simp add: compute_def)

lemma compute_returns:
  "original this args (world s) = (Inr r, w) \<Longrightarrow>
   compute ttl original this args now chave s =
     (Inr r, s\<lparr>cache := (cache s)(chave \<mapsto> \<lparr>valor = r, expira = now + ttl\<rparr>),
              world := w, applied := applied s @ [(this, args)]\<rparr>)"
  by (simp add: compute_def)

lemma applied_compute:
  "applied (snd (compute ttl original this args now chave s)) = applied s @ [(this, args)]"
  by (simp add: compute_def split: prod.splits sum.splits)

lemma Cache_hit:
  "cache s (chaveCache key args) = Some item \<Longrightarrow> now_read < expira item \<Longrightarrow>
   Cache ttl key original this args now_read now_write s = (Inr (valor item), s)"
  by (simp add: Cache_def Let_def)

lemma Cache_expired:
  "cache s (chaveCache key args) = Some item \<Longrightarrow> expira item \<le> now_read \<Longrightarrow>
   Cache ttl key original this args now_read now_write s =
     compute ttl original this args now_write (chaveCache key args)
       (s\<lparr>cache := (cache s)(chaveCache key args := None)\<rparr>)"
  by (simp add: Cache_def Let_def)

lemma Cache_absent:
  "cache s (chaveCache key args) = None \<Longrightarrow>
   Cache ttl key original this args now_read now_write s =
     compute ttl original this args now_write (chaveCache key args) s"
  by (simp add: Cache_def Let_def)

lemma Cache_no_live_entry:
  assumes "\<forall>item. cache s (chaveCache key args) = Some item \<longrightarrow> expira item \<le> now_read"
  shows "Cache ttl key original this args now_read now_write s =
     compute ttl original this args now_write (chaveCache key args)
       (s\<lparr>cache := (cache s)(chaveCache key args := None)\<rparr>)"
proof (cases "cache s (chaveCache key args)")
  case None
  then have "(cache s)(chaveCache key args := None) = cache s" by (simp add: fun_upd_idem)
  with None show ?thesis by (simp add: Cache_absent)
next
  case (Some item)
  with assms show ?thesis by (simp add: Cache_expired)
qed

lemma Cache_miss_returns:
  assumes "\<forall>item. cache s (chaveCache key args) = Some item \<longrightarrow> expira item \<le> now_read"
    and "original this args (world s) = (Inr v, w)"
  shows "Cache ttl key original this args now_read now_write s =
     (Inr v, s\<lparr>cache := (cache s)(chaveCache key args \<mapsto> \<lparr>valor = v, expira = now_write + ttl\<rparr>),
              world := w, applied := applied s @ [(this, args)]\<rparr>)"
proof -
  let ?k = "chaveCache key args"
  have "original this args (world (s\<lparr>cache := (cache s)(?k := None)\<rparr>)) = (Inr v, w)"
    using assms(2) by simp
  from compute_returns [of original this args "s\<lparr>cache := (cache s)(?k := None)\<rparr>" v w
      ttl now_write ?k, OF this]
  show ?thesis
    by (simp add: Cache_no_live_entry [OF assms(1)])
qed

lemma Cache_miss_throws:
  assumes "\<forall>item. cache s (chaveCache key args) = Some item \<longrightarrow> expira item \<le> now_read"
    and "original this args (world s) = (Inl e, w)"
  shows "Cache ttl key original this args now_read now_write s =
     (Inl e, s\<lparr>cache := (cache s)(chaveCache key args := None),
              world := w, applied := applied s @ [(this, args)]\<rparr>)"
proof -
  let ?k = "chaveCache key args"
  have "original this args (world (s\<lparr>cache := (cache s)(?k := None)\<rparr>)) = (Inl e, w)"
    using assms(2) by simp
  from compute_throws [of original this args "s\<lparr>cache := (cache s)(?k := None)\<rparr>" e w
      ttl now_write ?k, OF this]
  show ?thesis
    by (simp add: Cache_no_live_entry [OF assms(1)])
qed

lemma Cache_miss_then_hit:
  assumes "\<forall>item. cache s (chaveCache key args) = Some item \<longrightarrow> expira item \<le> now_read"
    and "original this args (world s) = (Inr v, w)"
    and "Cache ttl key original this args now_read now_write s = (r1, s1)"
    and "JSON_stringify (JArr args') = JSON_stringify (JArr args)"
    and "t < now_write + ttl"
  shows "r1 = Inr v \<and> applied s1 = applied s @ [(this, args)] \<and>
         Cache ttl key original this' args' t t' s1 = (Inr v, s1)"
proof -
  from Cache_miss_returns [where original = original and this = this and s = s, OF assms(1,2), of ttl now_write] assms(3)
  have r1: "r1 = Inr v"
    and s1: "s1 = s\<lparr>cache := (cache s)(chaveCache key args \<mapsto> \<lparr>valor = v, expira = now_write + ttl\<rparr>),
              world := w, applied := applied s @ [(this, args)]\<rparr>"
    by simp_all
  have k: "chaveCache key args' = chaveCache key args"
    using assms(4) by (simp add: chaveCache_eq_iff)
  have "cache s1 (chaveCache key args') = Some \<lparr>valor = v, expira = now_write + ttl\<rparr>"
    using s1 k by simp
  from Cache_hit [OF this, of t ttl original this' t'] assms(5)
  have "Cache ttl key original this' args' t t' s1 = (Inr v, s1)" by simp
  with r1 s1 show ?thesis by simp
qed

lemma empty_state_no_entry:
  "\<forall>item. cache (empty_state w) k = Some item \<longrightarrow> expira item \<le> t"
  by (simp add: empty_state_def)

lemma run_counting_ab:
  "Cache 1000 ''f'' counting 1 args_ab 0 0 (empty_state 0) =
     (Inr (Plain 0),
      \<lparr>cache = [chaveCache ''f'' args_ab \<mapsto> \<lparr>valor = Plain 0, expira = 1000\<rparr>],
       world = 1, applied = [(1, args_ab)]\<rparr>)"
  by (simp add: Cache_def Let_def compute_def counting_def empty_state_def)

lemma run_counting_ba:
  "Cache 1000 ''f'' counting 1 args_ba 500 500
      \<lparr>cache = [chaveCache ''f'' args_ab \<mapsto> \<lparr>valor = Plain 0, expira = 1000\<rparr>],
       world = 1, applied = [(1, args_ab)]\<rparr> =
     (Inr (Plain 1),
      \<lparr>cache = [chaveCache ''f'' args_ab \<mapsto> \<lparr>valor = Plain 0, expira = 1000\<rparr>,
                chaveCache ''f'' args_ba \<mapsto> \<lparr>valor = Plain 1, expira = 1500\<rparr>],
       world = 2, applied = [(1, args_ab), (1, args_ba)]\<rparr>)"
  using chave_ab_ba [of "''f''"]
  by (simp add: Cache_def Let_def compute_def counting_def)

lemma run_counting_ba_late:
  "Cache 1000 ''f'' counting 1 args_ba 1500 1500
      \<lparr>cache = [chaveCache ''f'' args_ab \<mapsto> \<lparr>valor = Plain 0, expira = 1000\<rparr>],
       world = 1, applied = [(1, args_ab)]\<rparr> =
     (Inr (Plain 1),
      \<lparr>cache = [chaveCache ''f'' args_ab \<mapsto> \<lparr>valor = Plain 0, expira = 1000\<rparr>,
                chaveCache ''f'' args_ba \<mapsto> \<lparr>valor = Plain 1, expira = 2500\<rparr>],
       world = 2, applied = [(1, args_ab), (1, args_ba)]\<rparr>)"
  using chave_ab_ba [of "''f''"]
  by (simp add: Cache_def Let_def compute_def counting_def)

text \<open>
  Claim C1, as stated, fails for an \<open>async\<close> method: its failure is a promise that
  rejects, the wrapper stores that promise like any other result, and the next call within
  the time to live hands out the same rejected promise without invoking the method.
\<close>

theorem Cache_rejected_promise_stored:
  "failed (fst (Cache 1000 ''f'' rejecting_async 1 [JNum 5] 0 0 (empty_state 0))) \<and>
   cache (snd (Cache 1000 ''f'' rejecting_async 1 [JNum 5] 0 0 (empty_state 0)))
     (chaveCache ''f'' [JNum 5]) = Some \<lparr>valor = Pending 0 (Inl ''boom''), expira = 1000\<rparr> \<and>
   Cache 1000 ''f'' rejecting_async 1 [JNum 5] 500 500
     (snd (Cache 1000 ''f'' rejecting_async 1 [JNum 5] 0 0 (empty_state 0))) =
     (Inr (Pending 0 (Inl ''boom'')),
      snd (Cache 1000 ''f'' rejecting_async 1 [JNum 5] 0 0 (empty_state 0))) \<and>
   applied (snd (Cache 1000 ''f'' rejecting_async 1 [JNum 5] 0 0 (empty_state 0))) = [(1, [JNum 5])]"
  by (simp add: Cache_def Let_def compute_def rejecting_async_def empty_state_def)

text \<open>
  Claim C1, amended. When the wrapped method is invoked (no live entry under the key) and
  throws, the error reaches the caller and the key has no entry afterwards, so that the next
  call with the same arguments, whenever it comes and on whichever receiver, invokes the
  method again. A method that returns a promise that rejects has not thrown: the promise
  is returned and stored with the expiry \<open>now + ttl\<close>, and every call with the same
  arguments made before that expiry is answered with it, the method not being invoked.
\<close>

theorem Cache_throw_not_stored:
  fixes original :: "('self, 'w, 'e, ('e, 'a) js_value) js_method"
  assumes "\<forall>item. cache s (chaveCache key args) = Some item \<longrightarrow> expira item \<le> now_read"
    and "Cache ttl key original this args now_read now_write s = (r, s')"
  shows "(\<forall>e w. original this args (world s) = (Inl e, w) \<longrightarrow>
            r = Inl e \<and> cache s' (chaveCache key args) = None \<and>
            applied s' = applied s @ [(this, args)] \<and>
            (\<forall>this2 t t'. applied (snd (Cache ttl key original this2 args t t' s')) =
               applied s' @ [(this2, args)])) \<and>
         (\<forall>p e w. original this args (world s) = (Inr (Pending p (Inl e)), w) \<longrightarrow>
            r = Inr (Pending p (Inl e)) \<and>
            cache s' (chaveCache key args) =
              Some \<lparr>valor = Pending p (Inl e), expira = now_write + ttl\<rparr> \<and>
            (\<forall>this2 t t'. t < now_write + ttl \<longrightarrow>
               Cache ttl key original this2 args t t' s' = (Inr (Pending p (Inl e)), s')))"
proof (intro conjI allI impI)
  fix e w
  assume thrown: "original this args (world s) = (Inl e, w)"
  let ?k = "chaveCache key args"
  from Cache_miss_throws [where original = original and this = this and s = s,
      OF assms(1) thrown, of ttl now_write] assms(2)
  have s': "s' = s\<lparr>cache := (cache s)(?k := None), world := w,
                    applied := applied s @ [(this, args)]\<rparr>" and r: "r = Inl e"
    by simp_all
  then have absent: "cache s' ?k = None" by simp
  show "r = Inl e" by (rule r)
  show "cache s' ?k = None" by (rule absent)
  show "applied s' = applied s @ [(this, args)]" using s' by simp
  show "applied (snd (Cache ttl key original this2 args t t' s')) = applied s' @ [(this2, args)]"
    for this2 t t'
    by (simp add: Cache_absent [OF absent] applied_compute)
next
  fix p e w
  assume rejected: "original this args (world s) = (Inr (Pending p (Inl e)), w)"
  from Cache_miss_returns [where original = original and this = this and s = s,
      OF assms(1) rejected, of ttl now_write] assms(2)
  have r: "r = Inr (Pending p (Inl e))"
    and stored: "cache s' (chaveCache key args) =
           Some \<lparr>valor = Pending p (Inl e), expira = now_write + ttl\<rparr>"
    by auto
  show "r = Inr (Pending p (Inl e))" by (rule r)
  show "cache s' (chaveCache key args) =
           Some \<lparr>valor = Pending p (Inl e), expira = now_write + ttl\<rparr>" by (rule stored)
  show "Cache ttl key original this2 args t t' s' = (Inr (Pending p (Inl e)), s')"
    if "t < now_write + ttl" for this2 t t'
    using Cache_hit [OF stored, of t ttl original this2 t'] that by simp
qed

theorem Cache_throw_not_stored_witness:
  "fst (Cache 1000 ''f'' throwing 1 [JNum 5] 0 0 (empty_state 0)) = Inl ''boom'' \<and>
   cache (snd (Cache 1000 ''f'' throwing 1 [JNum 5] 0 0 (empty_state 0)))
     (chaveCache ''f'' [JNum 5]) = None \<and>
   applied (snd (Cache 1000 ''f'' throwing 7 [JNum 5] 500 500
                   (snd (Cache 1000 ''f'' throwing 1 [JNum 5] 0 0 (empty_state 0))))) =
     [(1, [JNum 5]), (7, [JNum 5])] \<and>
   fst (Cache 1000 ''f'' rejecting_async 1 [JNum 5] 0 0 (empty_state 0)) =
     Inr (Pending 0 (Inl ''boom'')) \<and>
   cache (snd (Cache 1000 ''f'' rejecting_async 1 [JNum 5] 0 0 (empty_state 0)))
     (chaveCache ''f'' [JNum 5]) = Some \<lparr>valor = Pending 0 (Inl ''boom''), expira = 0 + 1000\<rparr> \<and>
   Cache 1000 ''f'' rejecting_async 7 [JNum 5] 999 999
       (snd (Cache 1000 ''f'' rejecting_async 1 [JNum 5] 0 0 (empty_state 0))) =
     (Inr (Pending 0 (Inl ''boom'')),
      snd (Cache 1000 ''f'' rejecting_async 1 [JNum 5] 0 0 (empty_state 0)))"
  using
    Cache_throw_not_stored [where original = throwing and this = 1 and s = "empty_state 0"
      and ttl = 1000 and key = "''f''" and args = "[JNum 5]" and now_read = 0 and now_write = 0,
      OF empty_state_no_entry prod.collapse [symmetric]]
    Cache_throw_not_stored [where original = rejecting_async and this = 1 and s = "empty_state 0"
      and ttl = 1000 and key = "''f''" and args = "[JNum 5]" and now_read = 0 and now_write = 0,
      OF empty_state_no_entry prod.collapse [symmetric]]
  by (simp add: throwing_def rejecting_async_def empty_state_def)

text \<open>
  Claim C5, as stated, fails: a second call within the time to live with deep-equal
  arguments whose object lists its fields in the other order misses the entry and invokes
  the method a second time.
\<close>

theorem deep_equal_second_call_recomputes:
  "deep_equal (JArr args_ab) (JArr args_ba) \<and>
   fst (Cache 1000 ''f'' counting 1 args_ab 0 0 (empty_state 0)) = Inr (Plain 0) \<and>
   fst (Cache 1000 ''f'' counting 1 args_ba 500 500
          (snd (Cache 1000 ''f'' counting 1 args_ab 0 0 (empty_state 0)))) = Inr (Plain 1) \<and>
   applied (snd (Cache 1000 ''f'' counting 1 args_ba 500 500
          (snd (Cache 1000 ''f'' counting 1 args_ab 0 0 (empty_state 0))))) =
     [(1, args_ab), (1, args_ba)]"
  unfolding run_counting_ab fst_conv snd_conv run_counting_ba
  using deep_equal_ab_ba by simp

text \<open>
  Claim C5, amended. After a call that invoked the method and stored its result, a second
  call whose arguments have the same serialization, made while the clock is below the
  expiry of the stored entry, returns the stored value and leaves the state as it is: the
  method has run once in total. The value is handed out as it was stored; for an
  \<open>async\<close> method it is the promise the method returned, the same handle.
\<close>

theorem Cache_second_call_hit:
  assumes "\<forall>item. cache s (chaveCache key args) = Some item \<longrightarrow> expira item \<le> now_read"
    and "original this args (world s) = (Inr v, w)"
    and "Cache ttl key original this args now_read now_write s = (r1, s1)"
    and "JSON_stringify (JArr args') = JSON_stringify (JArr args)"
    and "t < now_write + ttl"
  shows "r1 = Inr v \<and> applied s1 = applied s @ [(this, args)] \<and>
         cache s1 (chaveCache key args) = Some \<lparr>valor = v, expira = now_write + ttl\<rparr> \<and>
         Cache ttl key original this args' t t' s1 = (Inr v, s1)"
proof -
  from Cache_miss_returns [where original = original and this = this and s = s,
      OF assms(1,2), of ttl now_write] assms(3)
  have "cache s1 (chaveCache key args) = Some \<lparr>valor = v, expira = now_write + ttl\<rparr>"
    by auto
  with Cache_miss_then_hit [where original = original and this = this and s = s,
      OF assms, of this t']
  show ?thesis by simp
qed

theorem Cache_second_call_hit_witness:
  "fst (Cache 1000 ''f'' doubling 1 [JNum 5] 0 0 (empty_state 0)) = Inr (Plain 10) \<and>
   applied (snd (Cache 1000 ''f'' doubling 1 [JNum 5] 0 0 (empty_state 0))) = [(1, [JNum 5])] \<and>
   Cache 1000 ''f'' doubling 1 [JNum 5] 500 500
       (snd (Cache 1000 ''f'' doubling 1 [JNum 5] 0 0 (empty_state 0))) =
     (Inr (Plain 10), snd (Cache 1000 ''f'' doubling 1 [JNum 5] 0 0 (empty_state 0))) \<and>
   fst (Cache 1000 ''f'' resolving_async 1 [JNum 5] 0 0 (empty_state 0)) =
     Inr (Pending 0 (Inr 10)) \<and>
   Cache 1000 ''f'' resolving_async 1 [JNum 5] 500 500
       (snd (Cache 1000 ''f'' resolving_async 1 [JNum 5] 0 0 (empty_state 0))) =
     (Inr (Pending 0 (Inr 10)),
      snd (Cache 1000 ''f'' resolving_async 1 [JNum 5] 0 0 (empty_state 0)))"
proof -
  have a: "doubling 1 [JNum 5]
             (world (empty_state 0 :: (nat, nat, (string, int) js_value) cache_state)) =
           (Inr (Plain 10), 1)"
    by (simp add: doubling_def empty_state_def)
  have b: "resolving_async 1 [JNum 5]
             (world (empty_state 0 :: (nat, nat, (string, int) js_value) cache_state)) =
           (Inr (Pending 0 (Inr 10)), 1)"
    by (simp add: resolving_async_def empty_state_def)
  have c: "(500::int) < 0 + 1000" by simp
  from Cache_second_call_hit [where original = doubling and this = 1 and s = "empty_state 0"
      and ttl = 1000 and key = "''f''" and t = 500 and t' = 500,
      OF empty_state_no_entry a prod.collapse [symmetric] refl c]
    Cache_second_call_hit [where original = resolving_async and this = 1 and s = "empty_state 0"
      and ttl = 1000 and key = "''f''" and t = 500 and t' = 500,
      OF empty_state_no_entry b prod.collapse [symmetric] refl c]
  show ?thesis by (simp add: empty_state_def)
qed

text \<open>
  Claim C6, as stated, fails: a call after the expiry with deep-equal arguments whose
  object lists its fields in the other order works on another key, and the stale entry
  stays in the map.
\<close>

theorem deep_equal_stale_entry_stays:
  "deep_equal (JArr args_ab) (JArr args_ba) \<and>
   cache (snd (Cache 1000 ''f'' counting 1 args_ab 0 0 (empty_state 0))) (chaveCache ''f'' args_ab) =
     Some \<lparr>valor = Plain 0, expira = 1000\<rparr> \<and>
   cache (snd (Cache 1000 ''f'' counting 1 args_ba 1500 1500
                 (snd (Cache 1000 ''f'' counting 1 args_ab 0 0 (empty_state 0)))))
     (chaveCache ''f'' args_ab) = Some \<lparr>valor = Plain 0, expira = 1000\<rparr>"
  unfolding run_counting_ab fst_conv snd_conv run_counting_ba_late
  using deep_equal_ab_ba chave_ab_ba [of "''f''"] by simp

text \<open>
  Claim C6, amended. A call whose arguments have the same serialization as those of a
  stored entry, made when the clock has reached the expiry of that entry, invokes the
  method again. When the method returns, the entry is replaced by one holding the new
  result and the expiry \<open>now + ttl\<close>, with the clock read after the method returned;
  when it throws, the stale entry is removed and none is stored.
\<close>

theorem Cache_expired_recomputes:
  assumes "cache s (chaveCache key args') = Some item" and "expira item \<le> now_read"
    and "JSON_stringify (JArr args) = JSON_stringify (JArr args')"
    and "Cache ttl key original this args now_read now_write s = (r, s')"
  shows "applied s' = applied s @ [(this, args)] \<and>
         (\<forall>v w. original this args (world s) = (Inr v, w) \<longrightarrow>
            r = Inr v \<and>
            cache s' = (cache s)(chaveCache key args' \<mapsto> \<lparr>valor = v, expira = now_write + ttl\<rparr>)) \<and>
         (\<forall>e w. original this args (world s) = (Inl e, w) \<longrightarrow>
            r = Inl e \<and> cache s' = (cache s)(chaveCache key args' := None))"
proof -
  have k: "chaveCache key args = chaveCache key args'"
    using assms(3) by (simp add: chaveCache_eq_iff)
  have stale: "\<forall>item. cache s (chaveCache key args) = Some item \<longrightarrow> expira item \<le> now_read"
    using assms(1,2) k by simp
  have run: "Cache ttl key original this args now_read now_write s =
     compute ttl original this args now_write (chaveCache key args)
       (s\<lparr>cache := (cache s)(chaveCache key args := None)\<rparr>)"
    by (rule Cache_no_live_entry [OF stale])
  have a: "applied s' = applied s @ [(this, args)]"
    using assms(4) applied_compute [of ttl original this args now_write "chaveCache key args"
        "s\<lparr>cache := (cache s)(chaveCache key args := None)\<rparr>"]
    by (simp add: run)
  have b: "r = Inr v \<and>
      cache s' = (cache s)(chaveCache key args' \<mapsto> \<lparr>valor = v, expira = now_write + ttl\<rparr>)"
    if "original this args (world s) = (Inr v, w)" for v w
    using Cache_miss_returns [where original = original and this = this and s = s,
        OF stale that, of ttl now_write] assms(4) k
    by auto
  have c: "r = Inl e \<and> cache s' = (cache s)(chaveCache key args' := None)"
    if "original this args (world s) = (Inl e, w)" for e w
    using Cache_miss_throws [where original = original and this = this and s = s,
        OF stale that, of ttl now_write] assms(4) k
    by auto
  from a b c show ?thesis by blast
qed

theorem Cache_expired_recomputes_witness:
  "applied (snd (Cache 1000 ''f'' doubling 1 [JNum 5] 1500 1510
       \<lparr>cache = [chaveCache ''f'' [JNum 5] \<mapsto> \<lparr>valor = Plain 10, expira = 1000\<rparr>],
        world = 1, applied = [(1, [JNum 5])]\<rparr>)) = [(1, [JNum 5]), (1, [JNum 5])] \<and>
   fst (Cache 1000 ''f'' doubling 1 [JNum 5] 1500 1510
       \<lparr>cache = [chaveCache ''f'' [JNum 5] \<mapsto> \<lparr>valor = Plain 10, expira = 1000\<rparr>],
        world = 1, applied = [(1, [JNum 5])]\<rparr>) = Inr (Plain 10) \<and>
   cache (snd (Cache 1000 ''f'' doubling 1 [JNum 5] 1500 1510
       \<lparr>cache = [chaveCache ''f'' [JNum 5] \<mapsto> \<lparr>valor = Plain 10, expira = 1000\<rparr>],
        world = 1, applied = [(1, [JNum 5])]\<rparr>)) =
     [chaveCache ''f'' [JNum 5] \<mapsto> \<lparr>valor = Plain 10, expira = 2510\<rparr>]"
proof -
  let ?s = "\<lparr>cache = [chaveCache ''f'' [JNum 5] \<mapsto>
                        \<lparr>valor = Plain 10 :: (string, int) js_value, expira = 1000\<rparr>],
             world = 1::nat, applied = [(1::nat, [JNum 5])]\<rparr>"
  have a: "cache ?s (chaveCache ''f'' [JNum 5]) = Some \<lparr>valor = Plain 10, expira = 1000\<rparr>"
    by simp
  have b: "expira \<lparr>valor = Plain 10 :: (string, int) js_value, expira = 1000\<rparr> \<le> 1500"
    by simp
  from Cache_expired_recomputes [where original = doubling and this = 1 and s = ?s
      and ttl = 1000 and now_write = 1510, OF a b refl prod.collapse [symmetric]]
  show ?thesis by (simp add: doubling_def)
qed

text \<open>
  Claim C10. The map belongs to the decorated method and the key is made of the method
  name and the serialized arguments only. So after a call on one instance has stored its
  result, a call on another instance with arguments of the same serialization, made before
  the expiry, returns that result; the method does not run for the second instance.
\<close>

theorem Cache_shared_between_instances:
  assumes "a \<noteq> b"
    and "\<forall>item. cache s (chaveCache key args) = Some item \<longrightarrow> expira item \<le> now_read"
    and "original a args (world s) = (Inr v, w)"
    and "Cache ttl key original a args now_read now_write s = (r1, s1)"
    and "JSON_stringify (JArr args') = JSON_stringify (JArr args)"
    and "t < now_write + ttl"
  shows "r1 = Inr v \<and> applied s1 = applied s @ [(a, args)] \<and>
         Cache ttl key original b args' t t' s1 = (Inr v, s1) \<and>
         (b, args') \<notin> set (applied s1) - set (applied s)"
proof -
  from Cache_miss_then_hit [where original = original and this = a and s = s,
      OF assms(2-6), of b t']
  have m: "r1 = Inr v" "applied s1 = applied s @ [(a, args)]"
    "Cache ttl key original b args' t t' s1 = (Inr v, s1)"
    by simp_all
  from m(2) assms(1) have "(b, args') \<notin> set (applied s1) - set (applied s)" by auto
  with m show ?thesis by simp
qed

theorem Cache_shared_between_instances_witness:
  "fst (Cache 1000 ''f'' whoami 1 [JNum 5] 0 0 (empty_state 0)) = Inr (Plain 1) \<and>
   fst (whoami 2 [JNum 5] 1) = Inr (Plain 2) \<and>
   Cache 1000 ''f'' whoami 2 [JNum 5] 500 500
       (snd (Cache 1000 ''f'' whoami 1 [JNum 5] 0 0 (empty_state 0))) =
     (Inr (Plain 1), snd (Cache 1000 ''f'' whoami 1 [JNum 5] 0 0 (empty_state 0))) \<and>
   applied (snd (Cache 1000 ''f'' whoami 1 [JNum 5] 0 0 (empty_state 0))) = [(1, [JNum 5])]"
proof -
  have ne: "(1::nat) \<noteq> 2" by simp
  have a: "whoami 1 [JNum 5]
             (world (empty_state 0 :: (nat, nat, (string, int) js_value) cache_state)) =
           (Inr (Plain 1), 1)"
    by (simp add: whoami_def empty_state_def)
  have c: "(500::int) < 0 + 1000" by simp
  from Cache_shared_between_instances [where original = whoami and s = "empty_state 0"
      and ttl = 1000 and key = "''f''" and t = 500 and t' = 500,
      OF ne empty_state_no_entry a prod.collapse [symmetric] refl c]
  show ?thesis by (simp add: whoami_def empty_state_def)
qed

section \<open>Configuration values\<close>

text \<open>
  Claim C9, as stated, fails: neither function inspects its configuration. With a
  negative delay \<open>retry\<close> makes its attempts and returns the value of the second
  one; with \<open>retries = 0.5\<close>, which is below \<open>1\<close>, it calls the operation and returns
  its value; with a negative time to live \<open>Cache\<close> invokes the method and returns its
  result.
\<close>

theorem negative_delay_and_ttl_accepted:
  "retry (mock_rejected_once ''Falha 1'' ''Sucesso na 2'') render_Error (Num 3) (- 10) 0 =
     Some (Inr ''Sucesso na 2'', [Invoke, Wait (- 10), Invoke], 2) \<and>
   retry (mock_resolved ''Sucesso'') render_Error (Num (1 / 2)) 10 0 =
     Some (Inr ''Sucesso'', [Invoke], 1) \<and>
   fst (Cache (- 1) ''f'' doubling 1 [JNum 5] 0 0 (empty_state 0)) = Inr (Plain 10)"
  by (simp add: retry_def retry_loop.simps mock_rejected_once_def mock_resolved_def
      Cache_def Let_def compute_def doubling_def empty_state_def)

text \<open>
  Claim C9, amended. \<open>retry\<close> with \<open>retries \<le> 0\<close> (or \<open>NaN\<close>, or \<open>-Infinity\<close>)
  fails at once, without a call of the operation and without a wait, with the error of
  the line after its loop (\<open>Falha inesperada no retry\<close>); there is no error of its own
  for a configuration. With \<open>0 < retries < 1\<close> the
  operation is called once: its value is returned when it succeeds, and when it fails the
  delay is waited for and then the error of the line after the loop is thrown. With a
  negative delay the result, the number of calls and the final world are those of the run
  with delay \<open>0\<close>, and the negative value is what each wait is given. With a negative
  time to live a call that finds no live entry returns the result of the method and stores
  it with an expiry that lies before the clock reading it was computed from.
\<close>

theorem configuration_not_validated:
  fixes fn :: "('w, 'e, 'a) operation" and original :: "('self, 'u, 'x, 'v) js_method"
  shows "(retries = NaN \<or> retries = NegInfinity \<or> (\<exists>q\<le>0. retries = Num q) \<longrightarrow>
            retry fn render retries delay w =
              Some (Inl (Error ''Falha inesperada no retry''), [], w)) \<and>
         (\<forall>q. retries = Num q \<and> 0 < q \<and> q < 1 \<longrightarrow>
            (\<forall>v w1. fn w = (Inr v, w1) \<longrightarrow>
               retry fn render retries delay w = Some (Inr v, [Invoke], w1)) \<and>
            (\<forall>e w1. fn w = (Inl e, w1) \<longrightarrow>
               retry fn render retries delay w =
                 Some (Inl (Error ''Falha inesperada no retry''), [Invoke, Wait delay], w1))) \<and>
         (delay < 0 \<longrightarrow>
            map_option fst (retry fn render retries delay w) =
              map_option fst (retry fn render retries 0 w) \<and>
            map_option (\<lambda>y. count_list (fst (snd y)) Invoke) (retry fn render retries delay w) =
              map_option (\<lambda>y. count_list (fst (snd y)) Invoke) (retry fn render retries 0 w) \<and>
            map_option (\<lambda>y. snd (snd y)) (retry fn render retries delay w) =
              map_option (\<lambda>y. snd (snd y)) (retry fn render retries 0 w) \<and>
            (\<forall>r evs w'. retry fn render retries delay w = Some (r, evs, w') \<longrightarrow>
               set evs \<subseteq> {Invoke, Wait delay})) \<and>
         (ttl < 0 \<longrightarrow>
            (\<forall>item. cache s (chaveCache key args) = Some item \<longrightarrow> expira item \<le> now_read) \<longrightarrow>
            (\<forall>v u. original this args (world s) = (Inr v, u) \<longrightarrow>
               fst (Cache ttl key original this args now_read now_write s) = Inr v \<and>
               cache (snd (Cache ttl key original this args now_read now_write s))
                 (chaveCache key args) = Some \<lparr>valor = v, expira = now_write + ttl\<rparr> \<and>
               now_write + ttl < now_write))"
proof (intro conjI impI allI)
  assume "retries = NaN \<or> retries = NegInfinity \<or> (\<exists>q\<le>0. retries = Num q)"
  then have "\<not> counter_less 0 retries" by auto
  then show "retry fn render retries delay w =
      Some (Inl (Error ''Falha inesperada no retry''), [], w)"
    unfolding retry_def by (subst retry_loop.simps) simp
next
  fix q v w1
  assume q: "retries = Num q \<and> 0 < q \<and> q < 1" and fw: "fn w = (Inr v, w1)"
  then show "retry fn render retries delay w = Some (Inr v, [Invoke], w1)"
    unfolding retry_def by (subst retry_loop.simps) simp
next
  fix q e w1
  assume q: "retries = Num q \<and> 0 < q \<and> q < 1" and fw: "fn w = (Inl e, w1)"
  have stop: "retry_loop fn render retries delay (0 + 1) w1 =
      Some (Inl (Error ''Falha inesperada no retry''), [], w1)"
    using q by (subst retry_loop.simps) simp
  from q fw stop
  show "retry fn render retries delay w =
      Some (Inl (Error ''Falha inesperada no retry''), [Invoke, Wait delay], w1)"
    unfolding retry_def by (subst retry_loop.simps) simp
next
  note d = retry_loop_delay [of fn render retries delay 0 w 0]
  show "map_option fst (retry fn render retries delay w) =
        map_option fst (retry fn render retries 0 w)"
    unfolding retry_def d by (simp add: option.map_comp comp_def relabel_def)
  show "map_option (\<lambda>y. count_list (fst (snd y)) Invoke) (retry fn render retries delay w) =
        map_option (\<lambda>y. count_list (fst (snd y)) Invoke) (retry fn render retries 0 w)"
    unfolding retry_def d
    by (simp add: option.map_comp comp_def relabel_def count_set_delay)
  show "map_option (\<lambda>y. snd (snd y)) (retry fn render retries delay w) =
        map_option (\<lambda>y. snd (snd y)) (retry fn render retries 0 w)"
    unfolding retry_def d by (simp add: option.map_comp comp_def relabel_def)
  show "set evs \<subseteq> {Invoke, Wait delay}"
    if "retry fn render retries delay w = Some (r, evs, w')" for r evs w'
  proof -
    from that d obtain y where "evs = map (set_delay delay) (fst (snd y))"
      by (auto simp: retry_def relabel_def)
    then show ?thesis using set_delay_range by simp
  qed
next
  fix v u
  assume stale: "\<forall>item. cache s (chaveCache key args) = Some item \<longrightarrow> expira item \<le> now_read"
    and ret: "original this args (world s) = (Inr v, u)"
  from Cache_miss_returns [where original = original and this = this and s = s,
      OF stale ret, of ttl now_write]
  show "fst (Cache ttl key original this args now_read now_write s) = Inr v"
    and "cache (snd (Cache ttl key original this args now_read now_write s))
                 (chaveCache key args) = Some \<lparr>valor = v, expira = now_write + ttl\<rparr>"
    by simp_all
next
  assume "ttl < 0"
  then show "now_write + ttl < now_write" by simp
qed

theorem configuration_not_validated_witness:
  "retry (mock_rejected ''Erro Fatal'') render_Error (Num 0) (- 10) 0 =
     Some (Inl (Error ''Falha inesperada no retry''), [], 0) \<and>
   retry (mock_resolved ''Sucesso'') render_Error (Num (1 / 2)) (- 10) 0 =
     Some (Inr ''Sucesso'', [Invoke], 1) \<and>
   retry (mock_rejected ''Erro Fatal'') render_Error (Num (1 / 2)) (- 10) 0 =
     Some (Inl (Error ''Falha inesperada no retry''), [Invoke, Wait (- 10)], 1) \<and>
   map_option fst
       (retry (mock_rejected_once ''Falha 1'' ''Sucesso na 2'') render_Error (Num 3) (- 10) 0) =
     map_option fst
       (retry (mock_rejected_once ''Falha 1'' ''Sucesso na 2'') render_Error (Num 3) 0 0) \<and>
   fst (Cache (- 1) ''f'' doubling 1 [JNum 5] 0 0 (empty_state 0)) = Inr (Plain 10) \<and>
   cache (snd (Cache (- 1) ''f'' doubling 1 [JNum 5] 0 0 (empty_state 0))) (chaveCache ''f'' [JNum 5]) =
     Some \<lparr>valor = Plain 10, expira = 0 + - 1\<rparr>"
proof -
  let ?s = "empty_state 0 :: (nat, nat, (string, int) js_value) cache_state"
  have zero: "Num 0 = NaN \<or> Num 0 = NegInfinity \<or> (\<exists>q\<le>0. Num 0 = Num q)" by simp
  have half: "Num (1 / 2) = Num (1 / 2) \<and> (0::rat) < 1 / 2 \<and> (1 / 2 :: rat) < 1" by simp
  have neg: "(- 10 :: int) < 0" "(- 1 :: int) < 0" by simp_all
  have ok: "mock_resolved ''Sucesso'' 0 = (Inr ''Sucesso'', 1)"
    and ko: "mock_rejected ''Erro Fatal'' 0 = (Inl ''Erro Fatal'', 1)"
    by (simp_all add: mock_resolved_def mock_rejected_def)
  have miss: "\<forall>item. cache ?s (chaveCache ''f'' [JNum 5]) = Some item \<longrightarrow> expira item \<le> 0"
    by (rule empty_state_no_entry)
  have ten: "doubling 1 [JNum 5] (world ?s) = (Inr (Plain 10), 1)"
    by (simp add: doubling_def empty_state_def)
  from zero
    configuration_not_validated [where fn = "mock_rejected ''Erro Fatal''" and render = render_Error
      and retries = "Num 0" and delay = "- 10" and w = 0 and ttl = "- 1" and s = ?s
      and key = "''f''" and args = "[JNum 5]" and now_read = 0 and now_write = 0
      and original = doubling and this = 1]
  have one: "retry (mock_rejected ''Erro Fatal'') render_Error (Num 0) (- 10) 0 =
     Some (Inl (Error ''Falha inesperada no retry''), [], 0)"
    by blast
  from half ok
    configuration_not_validated [where fn = "mock_resolved ''Sucesso''" and render = render_Error
      and retries = "Num (1 / 2)" and delay = "- 10" and w = 0 and ttl = "- 1" and s = ?s
      and key = "''f''" and args = "[JNum 5]" and now_read = 0 and now_write = 0
      and original = doubling and this = 1]
  have two: "retry (mock_resolved ''Sucesso'') render_Error (Num (1 / 2)) (- 10) 0 =
     Some (Inr ''Sucesso'', [Invoke], 1)"
    by blast
  from half ko
    configuration_not_validated [where fn = "mock_rejected ''Erro Fatal''" and render = render_Error
      and retries = "Num (1 / 2)" and delay = "- 10" and w = 0 and ttl = "- 1" and s = ?s
      and key = "''f''" and args = "[JNum 5]" and now_read = 0 and now_write = 0
      and original = doubling and this = 1]
  have three: "retry (mock_rejected ''Erro Fatal'') render_Error (Num (1 / 2)) (- 10) 0 =
     Some (Inl (Error ''Falha inesperada no retry''), [Invoke, Wait (- 10)], 1)"
    by blast
  from neg miss ten
    configuration_not_validated [where fn = "mock_rejected_once ''Falha 1'' ''Sucesso na 2''"
      and render = render_Error and retries = "Num 3" and delay = "- 10" and w = 0 and ttl = "- 1"
      and s = ?s and key = "''f''" and args = "[JNum 5]" and now_read = 0
      and now_write = 0 and original = doubling and this = 1]
  have four: "map_option fst
       (retry (mock_rejected_once ''Falha 1'' ''Sucesso na 2'') render_Error (Num 3) (- 10) 0) =
     map_option fst
       (retry (mock_rejected_once ''Falha 1'' ''Sucesso na 2'') render_Error (Num 3) 0 0)"
    and five: "fst (Cache (- 1) ''f'' doubling 1 [JNum 5] 0 0 ?s) = Inr (Plain 10)"
    and six: "cache (snd (Cache (- 1) ''f'' doubling 1 [JNum 5] 0 0 ?s)) (chaveCache ''f'' [JNum 5]) =
     Some \<lparr>valor = Plain 10, expira = 0 + - 1\<rparr>"
    by blast+
  from one two three four five six show ?thesis by blast
qed

end
